theory Spec2Isabelle
  imports
    Complex_Main
    "HOL-Library.Sublist"
    "HOL-Library.Multiset"
    "HOL-Library.Product_Lexorder"
    "HOL-Library.List_Lexorder"
    "HOL-Library.Char_ord"
begin

section \<open>The dataset pipeline of make\_dataset.py\<close>

text \<open>
  The theory embeds \<^verbatim>\<open>src/make_dataset.py\<close>: the two corpus extractors
  (\<^verbatim>\<open>SquadPreprocessor.split_data\<close>, \<^verbatim>\<open>NewsQAPreprocessor.split_data\<close>), the
  merger \<^verbatim>\<open>concatenate_data\<close> and the merge calls of \<^verbatim>\<open>__main__\<close>.

  Conventions.
  \<^item> A Python \<^verbatim>\<open>str\<close> is a \<^typ>\<open>string\<close>; a \<^typ>\<open>char\<close> stands for a code point
    below 256.
  \<^item> A raised exception is a value \<open>Inl err\<close> of the result type \<open>error + 'a\<close>; the
    first one ends the run, as an uncaught exception does.
  \<^item> The module \<^verbatim>\<open>utils\<close> (\<^verbatim>\<open>clean_text\<close>, \<^verbatim>\<open>word_tokenize\<close>,
    \<^verbatim>\<open>sent_tokenize\<close>, \<^verbatim>\<open>convert_idx\<close>) and the module \<^verbatim>\<open>config\<close> are not
    part of the sources; their functions and directories are parameters.
  \<^item> A local variable that Python may read before any assignment is an \<open>option\<close>:
    \<open>None\<close> is "not yet bound".
\<close>

subsection \<open>Exceptions\<close>

datatype error =
    SentenceNotFound    \<comment> \<open>the \<^verbatim>\<open>raise Exception()\<close> after "Sentence cannot be found"\<close>
  | IndexError
  | KeyError
  | UnboundLocalError
  | FileNotFoundError
  | UtilsError          \<comment> \<open>whatever a function of \<^verbatim>\<open>utils\<close> raises\<close>

subsection \<open>Python string operations used by the source\<close>

definition newline :: char where
  "newline = CHR 0x0A"

text \<open>\<^verbatim>\<open>' '.join(tokens)\<close>.\<close>

fun py_join :: "string list \<Rightarrow> string" where
  "py_join [] = []"
| "py_join [t] = t"
| "py_join (t # u # ts) = t @ '' '' @ py_join (u # ts)"

text \<open>
  \<^verbatim>\<open>t.strip(chars)\<close> removes the characters of \<open>chars\<close> from both ends;
  \<^verbatim>\<open>t.strip()\<close> removes whitespace, that is the code points for which
  \<^verbatim>\<open>str.isspace\<close> holds (below 256: 9 to 13, 28 to 32, 133 and 160).
\<close>

definition py_strip_chars :: "char list \<Rightarrow> string \<Rightarrow> string" where
  "py_strip_chars cs t =
     rev (dropWhile (\<lambda>c. c \<in> set cs) (rev (dropWhile (\<lambda>c. c \<in> set cs) t)))"

definition py_whitespace :: "char list" where
  "py_whitespace =
     [CHR 0x09, CHR 0x0A, CHR 0x0B, CHR 0x0C, CHR 0x0D,
      CHR 0x1C, CHR 0x1D, CHR 0x1E, CHR 0x1F, CHR 0x20, CHR 0x85, CHR 0xA0]"

definition py_strip :: "string \<Rightarrow> string" where
  "py_strip t = py_strip_chars py_whitespace t"

text \<open>
  \<^verbatim>\<open>t[i:j]\<close> for integers \<open>i\<close>, \<open>j\<close>: a negative bound counts from the end, and
  both bounds are clamped to the string.
\<close>

definition py_bound :: "nat \<Rightarrow> int \<Rightarrow> nat" where
  "py_bound n i = (if i < 0 then nat (max 0 (int n + i)) else min n (nat i))"

definition py_slice :: "string \<Rightarrow> int \<Rightarrow> int \<Rightarrow> string" where
  "py_slice t i j =
     (let lo = py_bound (length t) i; hi = py_bound (length t) j
      in take (hi - lo) (drop lo t))"

text \<open>\<^verbatim>\<open>t.find(sub)\<close>: the lowest index at which \<open>sub\<close> occurs in \<open>t\<close>, or \<open>-1\<close>.\<close>

fun py_find :: "string \<Rightarrow> string \<Rightarrow> int" where
  "py_find [] sub = (if sub = [] then 0 else - 1)"
| "py_find (c # cs) sub =
     (if prefix sub (c # cs) then 0
      else (let i = py_find cs sub in if i = - 1 then - 1 else i + 1))"

text \<open>\<^verbatim>\<open>filename.split('-')[0]\<close>: the part before the first hyphen.\<close>

definition split_first :: "string \<Rightarrow> string" where
  "split_first filename = takeWhile (\<lambda>c. c \<noteq> CHR ''-'') filename"

subsection \<open>The functions of utils, as parameters\<close>

text \<open>
  A sentence is a list of tokens: the source adds \<^verbatim>\<open>len(sentence)\<close> to a token
  count and joins the tokens of a sentence with spaces. \<open>convert_idx\<close> gives one
  \<open>(start, end)\<close> pair of character offsets per token, or raises.
\<close>

record utils =
  clean_text :: "string \<Rightarrow> string"
  word_tokenize :: "string \<Rightarrow> string list"
  sent_tokenize :: "string \<Rightarrow> string list list"
  convert_idx :: "string \<Rightarrow> string list \<Rightarrow> error + (int \<times> int) list"

subsection \<open>Sentence start offsets (lines 83--88 and 162--167)\<close>

text \<open>
  \<^verbatim>\<open>
  num_tokens = 0
  sent_starts = []
  for sentence in context_sentences:
      first_sentence_span = spans[num_tokens][0]
      num_tokens += len(sentence)
      sent_starts.append(first_sentence_span)
  \<close>
  \<open>num_tokens\<close> is never negative, so \<^verbatim>\<open>spans[num_tokens]\<close> raises IndexError
  exactly when \<open>num_tokens\<close> is not below the number of spans. The list is built
  front first; the source appends, which gives the same list.
\<close>

fun sent_starts_from :: "(int \<times> int) list \<Rightarrow> nat \<Rightarrow> string list list \<Rightarrow> error + int list" where
  "sent_starts_from spans num_tokens [] = Inr []"
| "sent_starts_from spans num_tokens (sentence # rest) =
     (if num_tokens < length spans then
        (case sent_starts_from spans (num_tokens + length sentence) rest of
           Inl err \<Rightarrow> Inl err
         | Inr starts \<Rightarrow> Inr (fst (spans ! num_tokens) # starts))
      else Inl IndexError)"

definition sent_starts_of :: "(int \<times> int) list \<Rightarrow> string list list \<Rightarrow> error + int list" where
  "sent_starts_of spans context_sentences = sent_starts_from spans 0 context_sentences"

subsection \<open>The answer-to-sentence scan (lines 106--114 and 175--182)\<close>

text \<open>
  \<^verbatim>\<open>
  for idx, start in enumerate(sent_starts):
      if answer_start >= start:
          sentence_tokens = context_sentences[idx]
      else:
          break
  if not sentence_tokens:
      print("Sentence cannot be found")
      raise Exception()
  \<close>
  The working variable \<open>sentence_tokens\<close> is threaded through the scan. The SQuAD
  extractor sets it to \<open>[]\<close> before every scan (line 106); the NewsQA extractor
  does not, so there the scan starts from whatever an earlier question left.
\<close>

fun scan_sentences ::
  "int \<Rightarrow> string list list \<Rightarrow> nat \<Rightarrow> int list \<Rightarrow> string list option \<Rightarrow> error + string list option" where
  "scan_sentences answer_start context_sentences idx [] sentence_tokens = Inr sentence_tokens"
| "scan_sentences answer_start context_sentences idx (start # rest) sentence_tokens =
     (if answer_start \<ge> start then
        (if idx < length context_sentences then
           scan_sentences answer_start context_sentences (Suc idx) rest
             (Some (context_sentences ! idx))
         else Inl IndexError)
      else Inr sentence_tokens)"

text \<open>\<^verbatim>\<open>if not sentence_tokens: raise Exception()\<close>; reading an unbound local raises.\<close>

fun check_found :: "string list option \<Rightarrow> error + string list" where
  "check_found None = Inl UnboundLocalError"
| "check_found (Some []) = Inl SentenceNotFound"
| "check_found (Some (t # ts)) = Inr (t # ts)"

text \<open>The resolver as the SQuAD extractor runs it: reset, scan, check.\<close>

definition resolve :: "int \<Rightarrow> int list \<Rightarrow> string list list \<Rightarrow> error + string list" where
  "resolve answer_start sent_starts context_sentences =
     (case scan_sentences answer_start context_sentences 0 sent_starts (Some []) of
        Inl err \<Rightarrow> Inl err
      | Inr sentence_tokens \<Rightarrow> check_found sentence_tokens)"

subsection \<open>Output files of one split\<close>

text \<open>
  The three files an extractor holds open while it runs over one split; every
  \<^verbatim>\<open>write\<close> appends to the content.
\<close>

record out_files =
  sentence_file :: string
  question_file :: string
  answer_file :: string

definition empty_files :: out_files where
  "empty_files = \<lparr>sentence_file = [], question_file = [], answer_file = []\<rparr>"

definition write_triple :: "out_files \<Rightarrow> string \<Rightarrow> string \<Rightarrow> string \<Rightarrow> out_files" where
  "write_triple files sent qu ans =
     \<lparr>sentence_file = sentence_file files @ sent @ [newline],
      question_file = question_file files @ qu @ [newline],
      answer_file = answer_file files @ ans @ [newline]\<rparr>"

subsection \<open>Paths and files\<close>

text \<open>
  \<^verbatim>\<open>os.path.join\<close> on POSIX: a component that starts with a slash replaces what
  came before; otherwise it is appended, after a slash unless the path so far is
  empty or already ends with one.
\<close>

definition path_join2 :: "string \<Rightarrow> string \<Rightarrow> string" where
  "path_join2 p c =
     (if c \<noteq> [] \<and> hd c = CHR ''/'' then c
      else if p = [] \<or> last p = CHR ''/'' then p @ c
      else p @ ''/'' @ c)"

definition path_join :: "string \<Rightarrow> string list \<Rightarrow> string" where
  "path_join p cs = foldl path_join2 p cs"

text \<open>
  The file system: the content of every file that exists, by path. Directories
  are not modelled: a write to a path always succeeds.
\<close>

type_synonym fs = "string \<Rightarrow> string option"

definition store_files :: "string \<Rightarrow> string \<Rightarrow> out_files \<Rightarrow> fs \<Rightarrow> fs" where
  "store_files data_dir sub_dir files fs =
     fs (path_join data_dir [sub_dir, sub_dir @ ''.sentence''] \<mapsto> sentence_file files,
         path_join data_dir [sub_dir, sub_dir @ ''.question''] \<mapsto> question_file files,
         path_join data_dir [sub_dir, sub_dir @ ''.answer''] \<mapsto> answer_file files)"

subsection \<open>The SQuAD extractor (lines 61--119)\<close>

text \<open>
  The JSON of SQuAD. The keys \<^verbatim>\<open>text\<close>, \<^verbatim>\<open>answer_start\<close>,
  \<^verbatim>\<open>question\<close>, \<^verbatim>\<open>answers\<close>, \<^verbatim>\<open>context\<close>, \<^verbatim>\<open>qas\<close> and
  \<^verbatim>\<open>paragraphs\<close> are the fields below, each with a prefix.
\<close>

record squad_answer =
  ans_text :: string
  ans_start :: int

record squad_qa =
  qa_question :: string
  qa_answers :: "squad_answer list"

record squad_paragraph =
  par_context :: string
  par_qas :: "squad_qa list"

record squad_article =
  art_paragraphs :: "squad_paragraph list"

text \<open>
  The loop over \<^verbatim>\<open>range(answer_ids)\<close> (lines 101--114). It carries the two
  variables the write after it reads, \<open>sentence_tokens\<close> and \<open>answer_tokens\<close>; each
  round overwrites both, and a failed resolution raises at once.
\<close>

fun answers_loop ::
  "utils \<Rightarrow> string list list \<Rightarrow> int list \<Rightarrow> squad_answer list \<Rightarrow>
   (string list \<times> string list) option \<Rightarrow> error + (string list \<times> string list) option" where
  "answers_loop U context_sentences sent_starts [] vars = Inr vars"
| "answers_loop U context_sentences sent_starts (a # rest) vars =
     (let answer = clean_text U (ans_text a);
          answer_tokens = word_tokenize U answer;
          answer_start = ans_start a
      in case resolve answer_start sent_starts context_sentences of
           Inl err \<Rightarrow> Inl err
         | Inr sentence_tokens \<Rightarrow>
             answers_loop U context_sentences sent_starts rest
               (Some (sentence_tokens, answer_tokens)))"

text \<open>
  The body of the loop over \<^verbatim>\<open>qas\<close> (lines 92--119).
  \<^verbatim>\<open>qa['answers'][answer_id]\<close> for \<open>answer_id\<close> in \<^verbatim>\<open>range(answer_ids)\<close> visits
  the first \<open>answer_ids\<close> answers in order. The write is reached only when
  \<open>answer_ids\<close> is not 0, so the loop has bound both variables by then.
\<close>

definition squad_qa_step ::
  "utils \<Rightarrow> string \<Rightarrow> string list list \<Rightarrow> int list \<Rightarrow> squad_qa \<Rightarrow> out_files \<Rightarrow> error + out_files" where
  "squad_qa_step U sub_dir context_sentences sent_starts qa files =
     (let question = clean_text U (qa_question qa);
          question_tokens = word_tokenize U question;
          answer_ids = (if sub_dir = ''train''
                        then (if qa_answers qa \<noteq> [] then 1 else 0)
                        else length (qa_answers qa))
      in if answer_ids \<noteq> 0 then
           (case answers_loop U context_sentences sent_starts
                   (take answer_ids (qa_answers qa)) None of
              Inl err \<Rightarrow> Inl err
            | Inr None \<Rightarrow> Inl UnboundLocalError
            | Inr (Some (sentence_tokens, answer_tokens)) \<Rightarrow>
                Inr (write_triple files (py_join sentence_tokens)
                       (py_join question_tokens) (py_join answer_tokens)))
         else Inr files)"

fun squad_qas ::
  "utils \<Rightarrow> string \<Rightarrow> string list list \<Rightarrow> int list \<Rightarrow> squad_qa list \<Rightarrow> out_files \<Rightarrow> error + out_files" where
  "squad_qas U sub_dir context_sentences sent_starts [] files = Inr files"
| "squad_qas U sub_dir context_sentences sent_starts (qa # rest) files =
     (case squad_qa_step U sub_dir context_sentences sent_starts qa files of
        Inl err \<Rightarrow> Inl err
      | Inr files' \<Rightarrow> squad_qas U sub_dir context_sentences sent_starts rest files')"

definition squad_paragraph_step :: "utils \<Rightarrow> string \<Rightarrow> squad_paragraph \<Rightarrow> out_files \<Rightarrow> error + out_files" where
  "squad_paragraph_step U sub_dir paragraph files =
     (let context = clean_text U (par_context paragraph);
          context_tokens = word_tokenize U context;
          context_sentences = sent_tokenize U context
      in case convert_idx U context context_tokens of
           Inl err \<Rightarrow> Inl err
         | Inr spans \<Rightarrow>
             (case sent_starts_of spans context_sentences of
                Inl err \<Rightarrow> Inl err
              | Inr sent_starts \<Rightarrow>
                  squad_qas U sub_dir context_sentences sent_starts (par_qas paragraph) files))"

fun squad_paragraphs :: "utils \<Rightarrow> string \<Rightarrow> squad_paragraph list \<Rightarrow> out_files \<Rightarrow> error + out_files" where
  "squad_paragraphs U sub_dir [] files = Inr files"
| "squad_paragraphs U sub_dir (p # rest) files =
     (case squad_paragraph_step U sub_dir p files of
        Inl err \<Rightarrow> Inl err
      | Inr files' \<Rightarrow> squad_paragraphs U sub_dir rest files')"

fun squad_articles :: "utils \<Rightarrow> string \<Rightarrow> squad_article list \<Rightarrow> out_files \<Rightarrow> error + out_files" where
  "squad_articles U sub_dir [] files = Inr files"
| "squad_articles U sub_dir (a # rest) files =
     (case squad_paragraphs U sub_dir (art_paragraphs a) files of
        Inl err \<Rightarrow> Inl err
      | Inr files' \<Rightarrow> squad_articles U sub_dir rest files')"

text \<open>
  \<^verbatim>\<open>split_data(filename)\<close>: \<open>data\<close> is \<^verbatim>\<open>self.data['data']\<close> as loaded from
  \<open>filename\<close>. When the run raises, the files written so far are not returned.
\<close>

definition squad_split_data ::
  "utils \<Rightarrow> string \<Rightarrow> string \<Rightarrow> squad_article list \<Rightarrow> fs \<Rightarrow> error + fs" where
  "squad_split_data U data_dir filename data fs =
     (let sub_dir = split_first filename
      in case squad_articles U sub_dir data empty_files of
           Inl err \<Rightarrow> Inl err
         | Inr files \<Rightarrow> Inr (store_files data_dir sub_dir files fs))"

subsection \<open>The NewsQA extractor (lines 138--192)\<close>

text \<open>
  The JSON of NewsQA. \<open>cons_s\<close> and \<open>cons_e\<close> are the keys \<^verbatim>\<open>s\<close> and \<^verbatim>\<open>e\<close> of
  \<^verbatim>\<open>question["consensus"]\<close>, \<open>q_text\<close> is the key \<^verbatim>\<open>q\<close>; \<open>art_type\<close>,
  \<open>art_text\<close> and \<open>art_questions\<close> are the keys \<^verbatim>\<open>type\<close>, \<^verbatim>\<open>text\<close> and
  \<^verbatim>\<open>questions\<close> of an article. A key read with \<^verbatim>\<open>.get\<close> may be absent
  (\<open>None\<close>); \<^verbatim>\<open>question["consensus"]["e"]\<close> raises KeyError when absent.
\<close>

record nq_consensus =
  cons_s :: "int option"
  cons_e :: "int option"

record nq_question =
  isQuestionBad :: "rat option"
  consensus :: nq_consensus
  q_text :: string

record nq_article =
  art_type :: string
  art_text :: string
  art_questions :: "nq_question list"

text \<open>The truth value Python gives \<^verbatim>\<open>d.get("s")\<close>: absent and 0 are both false.\<close>

fun py_truthy :: "int option \<Rightarrow> bool" where
  "py_truthy None = False"
| "py_truthy (Some n) = (n \<noteq> 0)"

text \<open>Lines 184--187: the sentence line, with the CNN dateline cut off.\<close>

definition cnn_marker :: string where
  "cnn_marker = ''( CNN ) -- ''"

definition joined_sentence :: "string list \<Rightarrow> string" where
  "joined_sentence sentence_tokens =
     py_join (filter (\<lambda>t. t \<noteq> [])
       (map (\<lambda>token. py_strip (py_strip_chars [newline] token)) sentence_tokens))"

definition cnn_strip :: "string \<Rightarrow> string" where
  "cnn_strip sent =
     (let index = py_find sent cnn_marker
      in if index > - 1 then drop (nat index + length cnn_marker) sent else sent)"

text \<open>
  The body of the loop over \<^verbatim>\<open>article["questions"]\<close> (lines 156--192), for the
  article text \<open>context\<close>. It takes the working variable \<open>sentence_tokens\<close> as the
  last question left it and returns it with the triple written, if any.
\<close>

definition newsqa_question_step ::
  "utils \<Rightarrow> string \<Rightarrow> nq_question \<Rightarrow> string list option \<Rightarrow>
   error + (string list option \<times> (string \<times> string \<times> string) option)" where
  "newsqa_question_step U context question sentence_tokens =
     (if isQuestionBad question = Some 0 \<and> py_truthy (cons_s (consensus question)) then
        (let context_tokens = word_tokenize U context;
             context_sentences = sent_tokenize U context
         in case convert_idx U context context_tokens of
              Inl err \<Rightarrow> Inl err
            | Inr spans \<Rightarrow>
               (case sent_starts_of spans context_sentences of
                  Inl err \<Rightarrow> Inl err
                | Inr sent_starts \<Rightarrow>
                   (let qu = py_strip (q_text question)
                    in if qu = [] then Inl IndexError
                       else if last qu \<noteq> CHR ''?'' then Inr (sentence_tokens, None)
                       else
                         (case (cons_s (consensus question), cons_e (consensus question)) of
                            (Some answer_start, Some answer_end) \<Rightarrow>
                              (let answer = py_strip_chars [newline]
                                     (py_strip_chars ''.| ''
                                        (py_slice context answer_start answer_end))
                               in case scan_sentences answer_start context_sentences 0
                                         sent_starts sentence_tokens of
                                    Inl err \<Rightarrow> Inl err
                                  | Inr sentence_tokens' \<Rightarrow>
                                     (case check_found sentence_tokens' of
                                        Inl err \<Rightarrow> Inl err
                                      | Inr found \<Rightarrow>
                                          Inr (Some found,
                                               Some (cnn_strip (joined_sentence found), qu, answer))))
                          | _ \<Rightarrow> Inl KeyError))))
      else Inr (sentence_tokens, None))"

fun newsqa_questions ::
  "utils \<Rightarrow> string \<Rightarrow> nq_question list \<Rightarrow> string list option \<times> out_files \<Rightarrow>
   error + string list option \<times> out_files" where
  "newsqa_questions U context [] st = Inr st"
| "newsqa_questions U context (question # rest) (sentence_tokens, files) =
     (case newsqa_question_step U context question sentence_tokens of
        Inl err \<Rightarrow> Inl err
      | Inr (sentence_tokens', None) \<Rightarrow>
          newsqa_questions U context rest (sentence_tokens', files)
      | Inr (sentence_tokens', Some (sent, qu, answer)) \<Rightarrow>
          newsqa_questions U context rest (sentence_tokens', write_triple files sent qu answer))"

fun newsqa_articles ::
  "utils \<Rightarrow> string \<Rightarrow> nq_article list \<Rightarrow> string list option \<times> out_files \<Rightarrow>
   error + string list option \<times> out_files" where
  "newsqa_articles U sub_dir [] st = Inr st"
| "newsqa_articles U sub_dir (article # rest) st =
     (if art_type article \<noteq> sub_dir then newsqa_articles U sub_dir rest st
      else (case newsqa_questions U (art_text article) (art_questions article) st of
              Inl err \<Rightarrow> Inl err
            | Inr st' \<Rightarrow> newsqa_articles U sub_dir rest st'))"

text \<open>
  The loop over \<^verbatim>\<open>envs\<close>: each split opens three fresh files, while
  \<open>sentence_tokens\<close>, a local of \<^verbatim>\<open>split_data\<close>, lives on from one split to the
  next.
\<close>

fun newsqa_envs ::
  "utils \<Rightarrow> string \<Rightarrow> nq_article list \<Rightarrow> string list \<Rightarrow> string list option \<times> fs \<Rightarrow>
   error + string list option \<times> fs" where
  "newsqa_envs U data_dir data [] st = Inr st"
| "newsqa_envs U data_dir data (sub_dir # rest) (sentence_tokens, fs) =
     (case newsqa_articles U sub_dir data (sentence_tokens, empty_files) of
        Inl err \<Rightarrow> Inl err
      | Inr (sentence_tokens', files) \<Rightarrow>
          newsqa_envs U data_dir data rest
            (sentence_tokens', store_files data_dir sub_dir files fs))"

definition newsqa_split_data :: "utils \<Rightarrow> string \<Rightarrow> nq_article list \<Rightarrow> fs \<Rightarrow> error + fs" where
  "newsqa_split_data U data_dir data fs =
     (case newsqa_envs U data_dir data [''train'', ''dev''] (None, fs) of
        Inl err \<Rightarrow> Inl err
      | Inr (sentence_tokens, fs') \<Rightarrow> Inr fs')"

subsection \<open>The merger (lines 198--209) and its calls (lines 226--240)\<close>

text \<open>
  A file opened in text mode is read with universal newlines: \<^verbatim>\<open>\r\n\<close> and a
  lone \<^verbatim>\<open>\r\<close> arrive as \<^verbatim>\<open>\n\<close>. Iterating over the file gives its lines, each
  with its newline, the last one possibly without.
\<close>

fun universal_newlines :: "string \<Rightarrow> string" where
  "universal_newlines [] = []"
| "universal_newlines [c] = [if c = CHR 0x0D then newline else c]"
| "universal_newlines (c # d # cs) =
     (if c = CHR 0x0D then
        (if d = newline then newline # universal_newlines cs
         else newline # universal_newlines (d # cs))
      else c # universal_newlines (d # cs))"

fun split_lines :: "string \<Rightarrow> string list" where
  "split_lines [] = []"
| "split_lines (c # cs) =
     (if c = newline then [c] # split_lines cs
      else (case split_lines cs of
              [] \<Rightarrow> [[c]]
            | l # ls \<Rightarrow> (c # l) # ls))"

definition read_lines :: "string \<Rightarrow> string list" where
  "read_lines content = split_lines (universal_newlines content)"

text \<open>
  Lines 199--203: the output file is truncated, then every line of every input
  is written to it. The model takes the output path to differ from the inputs.
\<close>

fun copy_files :: "fs \<Rightarrow> string \<Rightarrow> string list \<Rightarrow> error + fs" where
  "copy_files fs out_filename [] = Inr fs"
| "copy_files fs out_filename (fname # rest) =
     (case fs fname of
        None \<Rightarrow> Inl FileNotFoundError
      | Some content \<Rightarrow>
          copy_files
            (fs (out_filename \<mapsto>
                   (case fs out_filename of None \<Rightarrow> [] | Some written \<Rightarrow> written)
                   @ concat (read_lines content)))
            out_filename rest)"

text \<open>
  Line 205: \<^verbatim>\<open>[(random.random(), line) for line in f]\<close>. The generator of the
  process is the sequence \<open>rnd\<close> of the numbers it will return, and the state is
  how many have been drawn; nothing in the source seeds or resets it.
\<close>

fun keyed_lines :: "(nat \<Rightarrow> rat) \<Rightarrow> nat \<Rightarrow> string list \<Rightarrow> (rat \<times> string) list" where
  "keyed_lines rnd drawn [] = []"
| "keyed_lines rnd drawn (line # rest) = (rnd drawn, line) # keyed_lines rnd (Suc drawn) rest"

text \<open>
  Lines 204--209: \<^verbatim>\<open>lines.sort()\<close> orders the pairs by key, then by line;
  the lines are written back in that order.
\<close>

definition concatenate_data ::
  "(nat \<Rightarrow> rat) \<Rightarrow> string list \<Rightarrow> string \<Rightarrow> fs \<times> nat \<Rightarrow> error + fs \<times> nat" where
  "concatenate_data rnd filenames out_filename st =
     (case copy_files ((fst st) (out_filename \<mapsto> [])) out_filename filenames of
        Inl err \<Rightarrow> Inl err
      | Inr fs1 \<Rightarrow>
          (case fs1 out_filename of
             None \<Rightarrow> Inl FileNotFoundError
           | Some content \<Rightarrow>
               (let lines = sort (keyed_lines rnd (snd st) (read_lines content))
                in Inr (fs1 (out_filename \<mapsto> concat (map snd lines)),
                        snd st + length lines))))"

text \<open>
  The four calls of \<^verbatim>\<open>__main__\<close>, in order. The three directories are
  \<^verbatim>\<open>config.squad_data_dir\<close>, \<^verbatim>\<open>config.newsqa_data_dir\<close> and \<^verbatim>\<open>config.out_dir\<close>.
\<close>

definition merge_one ::
  "(nat \<Rightarrow> rat) \<Rightarrow> string \<Rightarrow> string \<Rightarrow> string \<Rightarrow> string \<Rightarrow> string \<Rightarrow>
   fs \<times> nat \<Rightarrow> error + fs \<times> nat" where
  "merge_one rnd squad_data_dir newsqa_data_dir out_dir sub_dir name st =
     concatenate_data rnd
       [path_join squad_data_dir [sub_dir, name], path_join newsqa_data_dir [sub_dir, name]]
       (path_join out_dir [sub_dir, name]) st"

definition merge_stage ::
  "(nat \<Rightarrow> rat) \<Rightarrow> string \<Rightarrow> string \<Rightarrow> string \<Rightarrow> fs \<times> nat \<Rightarrow> error + fs \<times> nat" where
  "merge_stage rnd squad_data_dir newsqa_data_dir out_dir st =
     (case merge_one rnd squad_data_dir newsqa_data_dir out_dir ''train'' ''train.sentence'' st of
        Inl err \<Rightarrow> Inl err
      | Inr st1 \<Rightarrow>
     (case merge_one rnd squad_data_dir newsqa_data_dir out_dir ''train'' ''train.question'' st1 of
        Inl err \<Rightarrow> Inl err
      | Inr st2 \<Rightarrow>
     (case merge_one rnd squad_data_dir newsqa_data_dir out_dir ''dev'' ''dev.sentence'' st2 of
        Inl err \<Rightarrow> Inl err
      | Inr st3 \<Rightarrow>
        merge_one rnd squad_data_dir newsqa_data_dir out_dir ''dev'' ''dev.question'' st3)))"

text \<open>
  Lines 220--240 of \<^verbatim>\<open>__main__\<close>: the NewsQA extractor, the SQuAD extractor on
  the training and the development file, then the merge stage. The three data
  arguments are the \<^verbatim>\<open>data\<close> lists of the three JSON files; no random number
  has been drawn when the merge stage starts. The downloads before line 220 are
  left out.
\<close>

definition run_main ::
  "utils \<Rightarrow> (nat \<Rightarrow> rat) \<Rightarrow> string \<Rightarrow> string \<Rightarrow> string \<Rightarrow>
   nq_article list \<Rightarrow> squad_article list \<Rightarrow> squad_article list \<Rightarrow> fs \<Rightarrow> error + fs \<times> nat" where
  "run_main U rnd squad_data_dir newsqa_data_dir out_dir newsqa_data squad_train squad_dev fs =
     (case newsqa_split_data U newsqa_data_dir newsqa_data fs of
        Inl err \<Rightarrow> Inl err
      | Inr fs1 \<Rightarrow>
     (case squad_split_data U squad_data_dir ''train-v2.0.json'' squad_train fs1 of
        Inl err \<Rightarrow> Inl err
      | Inr fs2 \<Rightarrow>
     (case squad_split_data U squad_data_dir ''dev-v2.0.json'' squad_dev fs2 of
        Inl err \<Rightarrow> Inl err
      | Inr fs3 \<Rightarrow> merge_stage rnd squad_data_dir newsqa_data_dir out_dir (fs3, 0))))"

subsection \<open>The questions of a NewsQA run, in the order they are processed\<close>

text \<open>
  \<^verbatim>\<open>split_data\<close> visits, for each split in turn, the articles of that split and,
  for each article, its questions. \<open>newsqa_work\<close> lists the questions of one
  split in that order, each with the text of its article; \<open>newsqa_run\<close> applies
  the loop body to such a list and returns the working variable together with
  the triples written. Lemma \<open>newsqa_split_data_run\<close> below shows that the nested
  loops of \<open>newsqa_split_data\<close> compute exactly this.
\<close>

definition newsqa_work :: "string \<Rightarrow> nq_article list \<Rightarrow> (string \<times> nq_question) list" where
  "newsqa_work sub_dir data =
     concat (map (\<lambda>article. map (Pair (art_text article)) (art_questions article))
               (filter (\<lambda>article. art_type article = sub_dir) data))"

fun newsqa_run ::
  "utils \<Rightarrow> (string \<times> nq_question) list \<Rightarrow> string list option \<Rightarrow>
   error + string list option \<times> (string \<times> string \<times> string) list" where
  "newsqa_run U [] sentence_tokens = Inr (sentence_tokens, [])"
| "newsqa_run U ((context, question) # rest) sentence_tokens =
     (case newsqa_question_step U context question sentence_tokens of
        Inl err \<Rightarrow> Inl err
      | Inr (sentence_tokens', w) \<Rightarrow>
          (case newsqa_run U rest sentence_tokens' of
             Inl err \<Rightarrow> Inl err
           | Inr (sentence_tokens'', ws) \<Rightarrow>
               Inr (sentence_tokens'', (case w of None \<Rightarrow> ws | Some t \<Rightarrow> t # ws))))"

definition write_all :: "out_files \<Rightarrow> (string \<times> string \<times> string) list \<Rightarrow> out_files" where
  "write_all files ws = foldl (\<lambda>f (sent, qu, ans). write_triple f sent qu ans) files ws"

subsection \<open>Well-formed lines\<close>

text \<open>
  A line as a text file holds it when the file ends with a newline: not empty,
  ended by a newline, and with no newline before its end.
\<close>

definition proper_line :: "string \<Rightarrow> bool" where
  "proper_line l \<longleftrightarrow> l \<noteq> [] \<and> last l = newline \<and> newline \<notin> set (butlast l)"

subsection \<open>A small corpus for the worked examples\<close>

text \<open>
  A two-sentence passage, the same passage indented by two spaces, a news
  passage with a dateline, and functions for \<^verbatim>\<open>utils\<close> that tokenize exactly
  these texts (any other text is one token; \<open>convert_idx\<close> knows the three
  passages only).
\<close>

definition passage :: string where
  "passage = ''Cats sleep. Dogs run.''"

definition indented_passage :: string where
  "indented_passage = ''  Cats sleep. Dogs run.''"

definition cnn_passage :: string where
  "cnn_passage = ''(CNN) -- Officials said today.''"

definition example_utils :: utils where
  "example_utils =
     \<lparr>clean_text = (\<lambda>t. t),
      word_tokenize = (\<lambda>t.
        if t = passage \<or> t = indented_passage
        then [''Cats'', ''sleep'', ''.'', ''Dogs'', ''run'', ''.'']
        else if t = cnn_passage
        then [''('', ''CNN'', '')'', ''--'', ''Officials'', ''said'', ''today'', ''.'']
        else if t = ''Who runs?'' then [''Who'', ''runs'', ''?'']
        else if t = ''Who sleeps?'' then [''Who'', ''sleeps'', ''?'']
        else [t]),
      sent_tokenize = (\<lambda>t.
        if t = passage \<or> t = indented_passage
        then [[''Cats'', ''sleep'', ''.''], [''Dogs'', ''run'', ''.'']]
        else if t = cnn_passage
        then [[''('', ''CNN'', '')'', ''--'', ''Officials'', ''said'', ''today'', ''.'']]
        else [[t]]),
      convert_idx = (\<lambda>t tokens.
        if t = passage then Inr [(0, 4), (5, 10), (10, 11), (12, 16), (17, 20), (20, 21)]
        else if t = indented_passage
        then Inr [(2, 6), (7, 12), (12, 13), (14, 18), (19, 22), (22, 23)]
        else if t = cnn_passage
        then Inr [(0, 1), (1, 4), (4, 5), (6, 8), (9, 18), (19, 23), (24, 29), (29, 30)]
        else Inl UtilsError)\<rparr>"

text \<open>Three NewsQA questions: one on "Dogs" in the passage, one whose answer span
  starts at offset 1 of the indented passage, before its first token, and one
  on "Officials" in the news passage.\<close>

definition dogs_question :: nq_question where
  "dogs_question =
     \<lparr>isQuestionBad = Some 0, consensus = \<lparr>cons_s = Some 12, cons_e = Some 16\<rparr>,
      q_text = ''Who runs?''\<rparr>"

definition early_question :: nq_question where
  "early_question =
     \<lparr>isQuestionBad = Some 0, consensus = \<lparr>cons_s = Some 1, cons_e = Some 6\<rparr>,
      q_text = ''Who sleeps?''\<rparr>"

definition officials_question :: nq_question where
  "officials_question =
     \<lparr>isQuestionBad = Some 0, consensus = \<lparr>cons_s = Some 9, cons_e = Some 18\<rparr>,
      q_text = ''Who spoke today? ''\<rparr>"

text \<open>A file system with no file.\<close>

definition empty_fs :: fs where
  "empty_fs = (\<lambda>path. None)"

text \<open>
  The data of a run with one training example per corpus and no development
  example, and a sequence of random numbers that begins 0.1, 0.9, 0.8, 0.2.
\<close>

definition example_newsqa :: "nq_article list" where
  "example_newsqa =
     [\<lparr>art_type = ''train'', art_text = passage, art_questions = [dogs_question]\<rparr>]"

definition example_squad_train :: "squad_article list" where
  "example_squad_train =
     [\<lparr>art_paragraphs =
         [\<lparr>par_context = passage,
           par_qas = [\<lparr>qa_question = ''Who sleeps?'',
                       qa_answers = [\<lparr>ans_text = ''Cats'', ans_start = 0\<rparr>]\<rparr>]\<rparr>]\<rparr>]"

definition example_rnd :: "nat \<Rightarrow> rat" where
  "example_rnd n =
     (if n = 0 then 1 / 10 else if n = 1 then 9 / 10
      else if n = 2 then 8 / 10 else if n = 3 then 2 / 10 else 1 / 2)"

section \<open>Properties\<close>

subsection \<open>The resolver\<close>

lemma scan_takeWhile:
  "idx + length starts \<le> length cs \<Longrightarrow>
   scan_sentences a cs idx starts cur =
     Inr (if takeWhile (\<lambda>s. s \<le> a) starts = [] then cur
          else Some (cs ! (idx + length (takeWhile (\<lambda>s. s \<le> a) starts) - 1)))"
proof (induction starts arbitrary: idx cur)
  case Nil
  then show ?case by simp
next
  case (Cons s starts)
  show ?case
  proof (cases "s \<le> a")
    case True
    have "Suc idx + length starts \<le> length cs" using Cons.prems by simp
    from Cons.IH[OF this] True Cons.prems show ?thesis by auto
  next
    case False
    then show ?thesis by simp
  qed
qed

lemma takeWhile_length_scan:
  assumes "i < length xs" "\<forall>j\<le>i. P (xs ! j)" "Suc i < length xs \<longrightarrow> \<not> P (xs ! Suc i)"
  shows "length (takeWhile P xs) = Suc i"
proof -
  have "takeWhile P xs = take (Suc i) xs"
    using assms by (intro takeWhile_eq_take_P_nth) (auto simp: less_Suc_eq_le)
  then show ?thesis using assms by simp
qed

lemma check_found_Some:
  "check_found (Some ts) = (if ts = [] then Inl SentenceNotFound else Inr ts)"
  by (cases ts) simp_all

lemma resolve_none_before:
  assumes "\<forall>start \<in> set sent_starts. answer_start < start"
  shows "resolve answer_start sent_starts context_sentences = Inl SentenceNotFound"
proof (cases sent_starts)
  case Nil
  then show ?thesis by (simp add: resolve_def)
next
  case (Cons s rest)
  with assms have "\<not> s \<le> answer_start" by auto
  with Cons show ?thesis by (simp add: resolve_def)
qed

lemma resolve_scan_index:
  assumes len: "length context_sentences = length sent_starts"
    and i: "i < length sent_starts"
    and upto: "\<forall>j\<le>i. sent_starts ! j \<le> answer_start"
    and stop: "Suc i < length sent_starts \<longrightarrow> answer_start < sent_starts ! Suc i"
  shows "resolve answer_start sent_starts context_sentences =
           (if context_sentences ! i = [] then Inl SentenceNotFound
            else Inr (context_sentences ! i))"
proof -
  have n: "length (takeWhile (\<lambda>s. s \<le> answer_start) sent_starts) = Suc i"
    using i upto stop by (intro takeWhile_length_scan) auto
  then have ne: "takeWhile (\<lambda>s. s \<le> answer_start) sent_starts \<noteq> []" by auto
  have "scan_sentences answer_start context_sentences 0 sent_starts (Some []) =
          Inr (Some (context_sentences ! i))"
    using scan_takeWhile[of 0 sent_starts context_sentences answer_start "Some []"] len n ne
    by simp
  then show ?thesis by (simp add: resolve_def check_found_Some)
qed

lemma resolve_sorted_greatest:
  assumes len: "length context_sentences = length sent_starts"
    and srt: "sorted sent_starts"
    and i: "i < length sent_starts"
    and le: "sent_starts ! i \<le> answer_start"
    and greatest: "\<forall>j<length sent_starts. sent_starts ! j \<le> answer_start \<longrightarrow> j \<le> i"
  shows "resolve answer_start sent_starts context_sentences =
           (if context_sentences ! i = [] then Inl SentenceNotFound
            else Inr (context_sentences ! i))"
proof (rule resolve_scan_index[OF len i])
  show "\<forall>j\<le>i. sent_starts ! j \<le> answer_start"
  proof (intro allI impI)
    fix j assume "j \<le> i"
    then have "sent_starts ! j \<le> sent_starts ! i"
      using srt i by (simp add: sorted_nth_mono)
    with le show "sent_starts ! j \<le> answer_start" by simp
  qed
  show "Suc i < length sent_starts \<longrightarrow> answer_start < sent_starts ! Suc i"
    using greatest by force
qed

text \<open>
  In both extractors the starts handed to the scan come from the loop over the
  sentences, which gives one start per sentence whenever it raises nothing.
\<close>

lemma sent_starts_from_length:
  "sent_starts_from spans n context_sentences = Inr sent_starts \<Longrightarrow>
   length sent_starts = length context_sentences"
proof (induction context_sentences arbitrary: n sent_starts)
  case Nil
  then show ?case by simp
next
  case (Cons sentence rest)
  from Cons.prems obtain starts where
    "sent_starts_from spans (n + length sentence) rest = Inr starts"
    and "sent_starts = fst (spans ! n) # starts"
    by (auto split: if_splits sum.splits)
  with Cons.IH show ?case by simp
qed

lemma sent_starts_of_length:
  "sent_starts_of spans context_sentences = Inr sent_starts \<Longrightarrow>
   length sent_starts = length context_sentences"
  unfolding sent_starts_of_def by (rule sent_starts_from_length)

text \<open>
  Claim C2. Let \<open>sent_starts\<close> be non-empty, with one start per sentence. The
  resolver scans the starts in order and stops at the first one that exceeds
  \<open>answer_start\<close>:
  \<^item> if no start is at most \<open>answer_start\<close>, the result is NotFound (the exception
    \<open>SentenceNotFound\<close>);
  \<^item> otherwise it selects the sentence at the greatest index \<open>i\<close> the scan reaches,
    that is with every start up to \<open>i\<close> at most \<open>answer_start\<close> and the next one,
    if any, above it;
  \<^item> for starts in non-decreasing order, as sentence boundaries are, this is the
    greatest index \<open>i\<close> with \<open>sent_starts ! i \<le> answer_start\<close> outright;
  \<^item> for \<open>answer_start = 15\<close> and starts \<open>[0, 12]\<close> it is the sentence at index 1.

  The selected sentence is returned unless it has no token, which the source
  treats as NotFound as well.
\<close>

theorem resolve_selects_last_sentence_not_after_answer:
  assumes "sent_starts \<noteq> []"
    and "length context_sentences = length sent_starts"
  shows
    "((\<forall>start \<in> set sent_starts. answer_start < start) \<longrightarrow>
        resolve answer_start sent_starts context_sentences = Inl SentenceNotFound)
     \<and> (\<forall>i<length sent_starts.
          (\<forall>j\<le>i. sent_starts ! j \<le> answer_start)
          \<and> (Suc i < length sent_starts \<longrightarrow> answer_start < sent_starts ! Suc i) \<longrightarrow>
          resolve answer_start sent_starts context_sentences =
            (if context_sentences ! i = [] then Inl SentenceNotFound
             else Inr (context_sentences ! i)))
     \<and> (sorted sent_starts \<longrightarrow>
          (\<forall>i<length sent_starts.
             sent_starts ! i \<le> answer_start
             \<and> (\<forall>j<length sent_starts. sent_starts ! j \<le> answer_start \<longrightarrow> j \<le> i) \<longrightarrow>
             resolve answer_start sent_starts context_sentences =
               (if context_sentences ! i = [] then Inl SentenceNotFound
                else Inr (context_sentences ! i))))
     \<and> resolve 15 [0, 12] [[''Cats'', ''sleep'', ''.''], [''Dogs'', ''run'', ''.'']] =
          Inr [''Dogs'', ''run'', ''.'']"
proof (intro conjI)
  show "(\<forall>start \<in> set sent_starts. answer_start < start) \<longrightarrow>
        resolve answer_start sent_starts context_sentences = Inl SentenceNotFound"
    by (simp add: resolve_none_before)
  show "\<forall>i<length sent_starts.
          (\<forall>j\<le>i. sent_starts ! j \<le> answer_start)
          \<and> (Suc i < length sent_starts \<longrightarrow> answer_start < sent_starts ! Suc i) \<longrightarrow>
          resolve answer_start sent_starts context_sentences =
            (if context_sentences ! i = [] then Inl SentenceNotFound
             else Inr (context_sentences ! i))"
    using resolve_scan_index[OF assms(2)] by blast
  show "sorted sent_starts \<longrightarrow>
          (\<forall>i<length sent_starts.
             sent_starts ! i \<le> answer_start
             \<and> (\<forall>j<length sent_starts. sent_starts ! j \<le> answer_start \<longrightarrow> j \<le> i) \<longrightarrow>
             resolve answer_start sent_starts context_sentences =
               (if context_sentences ! i = [] then Inl SentenceNotFound
                else Inr (context_sentences ! i)))"
    using resolve_sorted_greatest[OF assms(2)] by blast
  show "resolve 15 [0, 12] [[''Cats'', ''sleep'', ''.''], [''Dogs'', ''run'', ''.'']] =
          Inr [''Dogs'', ''run'', ''.'']"
    by (simp add: resolve_def)
qed

text \<open>
  The theorem at three sentences starting at 0, 12 and 20: offset 13 lies in the
  second one, and offset \<open>-1\<close> in none.
\<close>

theorem resolve_selects_witness:
  "resolve 13 [0, 12, 20]
       [[''Cats'', ''sleep'', ''.''], [''Dogs'', ''run'', ''.''], [''Birds'', ''fly'', ''.'']]
     = Inr [''Dogs'', ''run'', ''.'']
   \<and> resolve (- 1) [0, 12, 20]
       [[''Cats'', ''sleep'', ''.''], [''Dogs'', ''run'', ''.''], [''Birds'', ''fly'', ''.'']]
     = Inl SentenceNotFound"
proof -
  let ?starts = "[0, 12, 20] :: int list"
  let ?cs = "[[''Cats'', ''sleep'', ''.''], [''Dogs'', ''run'', ''.''], [''Birds'', ''fly'', ''.'']]"
  have ne: "?starts \<noteq> []" by simp
  have len: "length ?cs = length ?starts" by simp
  note t13 = resolve_selects_last_sentence_not_after_answer[OF ne len, of 13]
  note tm1 = resolve_selects_last_sentence_not_after_answer[OF ne len, of "- 1"]
  have a: "resolve 13 ?starts ?cs = Inr [''Dogs'', ''run'', ''.'']"
  proof -
    have srt: "sorted ?starts" by simp
    have i: "(1::nat) < length ?starts" by simp
    have c: "?starts ! 1 \<le> 13 \<and> (\<forall>j<length ?starts. ?starts ! j \<le> 13 \<longrightarrow> j \<le> 1)"
      by (auto simp: less_Suc_eq nth_Cons')
    from t13 srt i c
    have "resolve 13 ?starts ?cs = (if ?cs ! 1 = [] then Inl SentenceNotFound else Inr (?cs ! 1))"
      by blast
    then show ?thesis by simp
  qed
  have b: "resolve (- 1) ?starts ?cs = Inl SentenceNotFound"
  proof -
    have "\<forall>start \<in> set ?starts. (- 1) < start" by simp
    with tm1 show ?thesis by blast
  qed
  from a b show ?thesis by simp
qed

subsection \<open>Sentence starts\<close>

lemma span_starts_strict_mono:
  fixes spans :: "(int \<times> int) list"
  assumes inv: "\<forall>i. Suc i < length spans \<longrightarrow> snd (spans ! i) \<le> fst (spans ! Suc i)"
    and ne: "\<forall>p \<in> set spans. fst p < snd p"
  shows "i < j \<Longrightarrow> j < length spans \<Longrightarrow> fst (spans ! i) < fst (spans ! j)"
proof (induction j)
  case 0
  then show ?case by simp
next
  case (Suc j)
  have step: "fst (spans ! j) < fst (spans ! Suc j)"
  proof -
    have "fst (spans ! j) < snd (spans ! j)" using ne Suc.prems by simp
    moreover have "snd (spans ! j) \<le> fst (spans ! Suc j)" using inv Suc.prems by simp
    ultimately show ?thesis by simp
  qed
  show ?case
  proof (cases "i = j")
    case True
    with step show ?thesis by simp
  next
    case False
    with Suc.prems have "i < j" "j < length spans" by simp_all
    with Suc.IH step show ?thesis by simp
  qed
qed

lemma sent_starts_from_ok:
  assumes mono: "\<And>i j. i < j \<Longrightarrow> j < length spans \<Longrightarrow> fst (spans ! i) < fst (spans ! j)"
  shows "\<forall>s \<in> set cs. s \<noteq> [] \<Longrightarrow> n + length (concat cs) \<le> length spans \<Longrightarrow>
         \<exists>starts. sent_starts_from spans n cs = Inr starts
           \<and> length starts = length cs
           \<and> (\<forall>x \<in> set starts. \<exists>k\<ge>n. k < length spans \<and> x = fst (spans ! k))
           \<and> (cs \<noteq> [] \<longrightarrow> hd starts = fst (spans ! n))
           \<and> sorted_wrt (<) starts"
proof (induction cs arbitrary: n)
  case Nil
  then show ?case by simp
next
  case (Cons s cs)
  from Cons.prems have s: "s \<noteq> []" and rest: "\<forall>t \<in> set cs. t \<noteq> []" by simp_all
  from Cons.prems have bound: "(n + length s) + length (concat cs) \<le> length spans" by simp
  from s bound have n: "n < length spans" by (cases s) simp_all
  from Cons.IH[OF rest bound] obtain starts where
    st: "sent_starts_from spans (n + length s) cs = Inr starts"
    and len: "length starts = length cs"
    and idx: "\<forall>x \<in> set starts. \<exists>k\<ge>n + length s. k < length spans \<and> x = fst (spans ! k)"
    and srt: "sorted_wrt (<) starts"
    by blast
  have above: "\<forall>x \<in> set starts. fst (spans ! n) < x"
  proof
    fix x assume "x \<in> set starts"
    with idx obtain k where k: "n + length s \<le> k" "k < length spans" "x = fst (spans ! k)"
      by blast
    from s k(1) have "n < k" by (cases s) simp_all
    with mono k show "fst (spans ! n) < x" by simp
  qed
  have "sent_starts_from spans n (s # cs) = Inr (fst (spans ! n) # starts)"
    using n st by simp
  moreover have "\<forall>x \<in> set (fst (spans ! n) # starts). \<exists>k\<ge>n. k < length spans \<and> x = fst (spans ! k)"
  proof
    fix x assume "x \<in> set (fst (spans ! n) # starts)"
    then consider "x = fst (spans ! n)" | "x \<in> set starts" by auto
    then show "\<exists>k\<ge>n. k < length spans \<and> x = fst (spans ! k)"
    proof cases
      case 1
      with n show ?thesis by blast
    next
      case 2
      with idx obtain k where "n + length s \<le> k" "k < length spans" "x = fst (spans ! k)"
        by blast
      then show ?thesis by (intro exI[of _ k]) simp
    qed
  qed
  ultimately show ?case using len srt above by simp
qed

text \<open>
  Claim C7, as amended. Take a passage with at least one sentence, one span per
  token, spans that are ordered and do not overlap (each starts no earlier than
  the one before it ends) and are not empty (each ends after it starts, as the
  span of a token of at least one character does), and sentences that are
  non-empty groups of tokens whose concatenation is the token sequence. Then
  the loop raises nothing, the list of sentence starts has one entry per
  sentence and is strictly increasing, and its first entry is the start offset
  of the first token. That offset is 0 only when the passage begins with its
  first token.
\<close>

theorem sent_starts_strictly_increasing:
  assumes "context_sentences \<noteq> []"
    and "length spans = length context_tokens"
    and "concat context_sentences = context_tokens"
    and "\<forall>sentence \<in> set context_sentences. sentence \<noteq> []"
    and "\<forall>i. Suc i < length spans \<longrightarrow> snd (spans ! i) \<le> fst (spans ! Suc i)"
    and "\<forall>span \<in> set spans. fst span < snd span"
  shows "\<exists>sent_starts. sent_starts_of spans context_sentences = Inr sent_starts
           \<and> length sent_starts = length context_sentences
           \<and> sorted_wrt (<) sent_starts
           \<and> hd sent_starts = fst (hd spans)"
proof -
  have mono: "\<And>i j. i < j \<Longrightarrow> j < length spans \<Longrightarrow> fst (spans ! i) < fst (spans ! j)"
    using span_starts_strict_mono[OF assms(5) assms(6)] .
  have bound: "0 + length (concat context_sentences) \<le> length spans"
    using assms(2) assms(3) by simp
  from sent_starts_from_ok[OF mono assms(4) bound] obtain starts where
    st: "sent_starts_from spans 0 context_sentences = Inr starts"
    and len: "length starts = length context_sentences"
    and first: "context_sentences \<noteq> [] \<longrightarrow> hd starts = fst (spans ! 0)"
    and srt: "sorted_wrt (<) starts"
    by blast
  have "spans \<noteq> []"
  proof
    assume "spans = []"
    with assms(2) assms(3) have "concat context_sentences = []" by simp
    with assms(1) assms(4) show False by (cases context_sentences) auto
  qed
  then have "spans ! 0 = hd spans" by (simp add: hd_conv_nth)
  with st len first srt assms(1) show ?thesis by (simp add: sent_starts_of_def)
qed

text \<open>The theorem at the passage "Cats sleep. Dogs run.": the starts are 0 and 12.\<close>

theorem sent_starts_witness:
  "sent_starts_of [(0, 4), (5, 10), (10, 11), (12, 16), (17, 20), (20, 21)]
       [[''Cats'', ''sleep'', ''.''], [''Dogs'', ''run'', ''.'']] = Inr [0, 12]"
proof -
  let ?spans = "[(0, 4), (5, 10), (10, 11), (12, 16), (17, 20), (20, 21)] :: (int \<times> int) list"
  let ?cs = "[[''Cats'', ''sleep'', ''.''], [''Dogs'', ''run'', ''.'']]"
  let ?toks = "[''Cats'', ''sleep'', ''.'', ''Dogs'', ''run'', ''.'']"
  have h1: "?cs \<noteq> []" by simp
  have h2: "length ?spans = length ?toks" by simp
  have h3: "concat ?cs = ?toks" by simp
  have h4: "\<forall>sentence \<in> set ?cs. sentence \<noteq> []" by simp
  have h5: "\<forall>i. Suc i < length ?spans \<longrightarrow> snd (?spans ! i) \<le> fst (?spans ! Suc i)"
    by (auto simp: less_Suc_eq nth_Cons')
  have h6: "\<forall>span \<in> set ?spans. fst span < snd span" by simp
  from sent_starts_strictly_increasing[OF h1 h2 h3 h4 h5 h6]
  obtain starts where "sent_starts_of ?spans ?cs = Inr starts" by blast
  then show ?thesis by (simp add: sent_starts_of_def)
qed

text \<open>
  Claim C7 as stated fails: the passage " Cats sleep." begins with a space, its
  three tokens have the spans (1,5), (6,11), (11,12), which are ordered and do
  not overlap, and its one sentence holds all three tokens; the list of
  sentence starts is \<open>[1]\<close>, so its first entry is not 0.
\<close>

theorem sent_starts_first_not_zero:
  "length [(1, 5), (6, 11), (11, 12)] = length [''Cats'', ''sleep'', ''.'']
   \<and> concat [[''Cats'', ''sleep'', ''.'']] = [''Cats'', ''sleep'', ''.'']
   \<and> sent_starts_of [(1, 5), (6, 11), (11, 12)] [[''Cats'', ''sleep'', ''.'']] = Inr [1]"
  by (simp add: sent_starts_of_def)

text \<open>
  Why the spans must not be empty: two tokens of which the first is the empty
  string can both start at 0 without overlapping, and two sentences of one
  token each then start at the same offset.
\<close>

lemma sent_starts_empty_tokens_not_strict:
  "sent_starts_of [(0, 0), (0, 1)] [[''''], [''a'']] = Inr [0, 0]"
  by (simp add: sent_starts_of_def)

subsection \<open>The SQuAD extractor\<close>

lemma answers_loop_all_resolve:
  "\<forall>a \<in> set answers. \<exists>s. resolve (ans_start a) sent_starts context_sentences = Inr s \<Longrightarrow>
   answers \<noteq> [] \<Longrightarrow>
   \<exists>s. resolve (ans_start (last answers)) sent_starts context_sentences = Inr s
     \<and> answers_loop U context_sentences sent_starts answers vars =
         Inr (Some (s, word_tokenize U (clean_text U (ans_text (last answers)))))"
proof (induction answers arbitrary: vars)
  case Nil
  then show ?case by simp
next
  case (Cons a rest)
  from Cons.prems obtain s where s: "resolve (ans_start a) sent_starts context_sentences = Inr s"
    by auto
  show ?case
  proof (cases "rest = []")
    case True
    with s show ?thesis by simp
  next
    case False
    from Cons.prems have "\<forall>a \<in> set rest. \<exists>s. resolve (ans_start a) sent_starts context_sentences = Inr s"
      by simp
    from Cons.IH[OF this False] s False show ?thesis by simp
  qed
qed

lemma answers_loop_some_fails:
  "\<exists>a \<in> set answers. \<exists>err. resolve (ans_start a) sent_starts context_sentences = Inl err \<Longrightarrow>
   \<exists>err. answers_loop U context_sentences sent_starts answers vars = Inl err"
proof (induction answers arbitrary: vars)
  case Nil
  then show ?case by simp
next
  case (Cons a rest)
  show ?case
  proof (cases "resolve (ans_start a) sent_starts context_sentences")
    case (Inl err)
    then show ?thesis by simp
  next
    case (Inr s)
    with Cons.prems have "\<exists>a \<in> set rest. \<exists>err. resolve (ans_start a) sent_starts context_sentences = Inl err"
      by auto
    from Cons.IH[OF this] Inr show ?thesis by simp
  qed
qed

text \<open>
  Claim C3. On a split other than the training split (the sub-directory name is
  not "train"), for a question with at least one answer, the extractor runs the
  resolver on every answer of the list:
  \<^item> if every answer resolves to a sentence, exactly one triple is written for
    the question, one line appended to each of the three files, and its
    sentence and answer are those of the last answer of the list;
  \<^item> if some answer of the list, whichever, does not resolve, the run raises
    and nothing is written for the question.
\<close>

theorem squad_dev_writes_last_answer:
  assumes "sub_dir \<noteq> ''train''" and "qa_answers qa \<noteq> []"
  shows
    "((\<forall>a \<in> set (qa_answers qa). \<exists>s. resolve (ans_start a) sent_starts context_sentences = Inr s) \<longrightarrow>
        (\<exists>s. resolve (ans_start (last (qa_answers qa))) sent_starts context_sentences = Inr s
           \<and> squad_qa_step U sub_dir context_sentences sent_starts qa files =
               Inr \<lparr>sentence_file = sentence_file files @ py_join s @ [newline],
                    question_file = question_file files
                      @ py_join (word_tokenize U (clean_text U (qa_question qa))) @ [newline],
                    answer_file = answer_file files
                      @ py_join (word_tokenize U (clean_text U (ans_text (last (qa_answers qa)))))
                      @ [newline]\<rparr>))
     \<and> ((\<exists>a \<in> set (qa_answers qa). \<exists>err. resolve (ans_start a) sent_starts context_sentences = Inl err) \<longrightarrow>
        (\<exists>err. squad_qa_step U sub_dir context_sentences sent_starts qa files = Inl err))"
proof (intro conjI impI)
  assume all: "\<forall>a \<in> set (qa_answers qa). \<exists>s. resolve (ans_start a) sent_starts context_sentences = Inr s"
  from answers_loop_all_resolve[OF all assms(2), of U None] obtain s where
    s: "resolve (ans_start (last (qa_answers qa))) sent_starts context_sentences = Inr s"
    and loop: "answers_loop U context_sentences sent_starts (qa_answers qa) None =
         Inr (Some (s, word_tokenize U (clean_text U (ans_text (last (qa_answers qa))))))"
    by blast
  have "squad_qa_step U sub_dir context_sentences sent_starts qa files =
          Inr \<lparr>sentence_file = sentence_file files @ py_join s @ [newline],
               question_file = question_file files
                 @ py_join (word_tokenize U (clean_text U (qa_question qa))) @ [newline],
               answer_file = answer_file files
                 @ py_join (word_tokenize U (clean_text U (ans_text (last (qa_answers qa)))))
                 @ [newline]\<rparr>"
    using assms loop by (simp add: squad_qa_step_def write_triple_def)
  with s show "\<exists>s. resolve (ans_start (last (qa_answers qa))) sent_starts context_sentences = Inr s
           \<and> squad_qa_step U sub_dir context_sentences sent_starts qa files =
               Inr \<lparr>sentence_file = sentence_file files @ py_join s @ [newline],
                    question_file = question_file files
                      @ py_join (word_tokenize U (clean_text U (qa_question qa))) @ [newline],
                    answer_file = answer_file files
                      @ py_join (word_tokenize U (clean_text U (ans_text (last (qa_answers qa)))))
                      @ [newline]\<rparr>"
    by blast
next
  assume "\<exists>a \<in> set (qa_answers qa). \<exists>err. resolve (ans_start a) sent_starts context_sentences = Inl err"
  from answers_loop_some_fails[OF this, of U None] obtain err where
    "answers_loop U context_sentences sent_starts (qa_answers qa) None = Inl err" by blast
  then show "\<exists>err. squad_qa_step U sub_dir context_sentences sent_starts qa files = Inl err"
    using assms by (simp add: squad_qa_step_def)
qed


text \<open>
  The theorem at a question of the passage with the answers "Cats" (offset 0)
  and "Dogs" (offset 12): the triple written is that of "Dogs". With the first
  offset changed to \<open>-1\<close> the run raises although the last answer resolves.
\<close>

theorem squad_dev_witness:
  "squad_qa_step example_utils ''dev''
       [[''Cats'', ''sleep'', ''.''], [''Dogs'', ''run'', ''.'']] [0, 12]
       \<lparr>qa_question = ''Who runs?'',
        qa_answers = [\<lparr>ans_text = ''Cats'', ans_start = 0\<rparr>, \<lparr>ans_text = ''Dogs'', ans_start = 12\<rparr>]\<rparr>
       empty_files
     = Inr \<lparr>sentence_file = ''Dogs run .'' @ [newline],
            question_file = ''Who runs ?'' @ [newline],
            answer_file = ''Dogs'' @ [newline]\<rparr>
   \<and> squad_qa_step example_utils ''dev''
       [[''Cats'', ''sleep'', ''.''], [''Dogs'', ''run'', ''.'']] [0, 12]
       \<lparr>qa_question = ''Who runs?'',
        qa_answers = [\<lparr>ans_text = ''Cats'', ans_start = - 1\<rparr>, \<lparr>ans_text = ''Dogs'', ans_start = 12\<rparr>]\<rparr>
       empty_files
     = Inl SentenceNotFound"
proof -
  let ?cs = "[[''Cats'', ''sleep'', ''.''], [''Dogs'', ''run'', ''.'']]"
  let ?starts = "[0, 12] :: int list"
  let ?good = "\<lparr>qa_question = ''Who runs?'',
        qa_answers = [\<lparr>ans_text = ''Cats'', ans_start = 0\<rparr>, \<lparr>ans_text = ''Dogs'', ans_start = 12\<rparr>]\<rparr>"
  let ?bad = "\<lparr>qa_question = ''Who runs?'',
        qa_answers = [\<lparr>ans_text = ''Cats'', ans_start = - 1\<rparr>, \<lparr>ans_text = ''Dogs'', ans_start = 12\<rparr>]\<rparr>"
  have dev: "''dev'' \<noteq> ''train''" by simp
  have r0: "resolve 0 ?starts ?cs = Inr [''Cats'', ''sleep'', ''.'']" by (simp add: resolve_def)
  have r12: "resolve 12 ?starts ?cs = Inr [''Dogs'', ''run'', ''.'']" by (simp add: resolve_def)
  have rm: "resolve (- 1) ?starts ?cs = Inl SentenceNotFound" by (simp add: resolve_def)
  have good_ne: "qa_answers ?good \<noteq> []" by simp
  have bad_ne: "qa_answers ?bad \<noteq> []" by simp
  have all: "\<forall>a \<in> set (qa_answers ?good). \<exists>s. resolve (ans_start a) ?starts ?cs = Inr s"
    using r0 r12 by simp
  have some: "\<exists>a \<in> set (qa_answers ?bad). \<exists>err. resolve (ans_start a) ?starts ?cs = Inl err"
    using rm by simp
  from squad_dev_writes_last_answer[OF dev good_ne, of ?starts ?cs example_utils empty_files] all
  obtain s where rs: "resolve (ans_start (last (qa_answers ?good))) ?starts ?cs = Inr s"
    and step: "squad_qa_step example_utils ''dev'' ?cs ?starts ?good empty_files =
           Inr \<lparr>sentence_file = sentence_file empty_files @ py_join s @ [newline],
                question_file = question_file empty_files
                  @ py_join (word_tokenize example_utils (clean_text example_utils (qa_question ?good)))
                  @ [newline],
                answer_file = answer_file empty_files
                  @ py_join (word_tokenize example_utils
                       (clean_text example_utils (ans_text (last (qa_answers ?good)))))
                  @ [newline]\<rparr>"
    by blast
  from rs r12 have s: "s = [''Dogs'', ''run'', ''.'']" by simp
  have a: "squad_qa_step example_utils ''dev'' ?cs ?starts ?good empty_files =
      Inr \<lparr>sentence_file = ''Dogs run .'' @ [newline],
           question_file = ''Who runs ?'' @ [newline],
           answer_file = ''Dogs'' @ [newline]\<rparr>"
    unfolding step s
    by (simp add: example_utils_def empty_files_def passage_def indented_passage_def cnn_passage_def)
  from squad_dev_writes_last_answer[OF dev bad_ne, of ?starts ?cs example_utils empty_files] some
  obtain err where "squad_qa_step example_utils ''dev'' ?cs ?starts ?bad empty_files = Inl err"
    by blast
  then have b: "squad_qa_step example_utils ''dev'' ?cs ?starts ?bad empty_files = Inl SentenceNotFound"
    by (simp add: squad_qa_step_def resolve_def)
  from a b show ?thesis by simp
qed

text \<open>
  Claim C5. On the training split a question without answers writes nothing
  and raises nothing. A question with answers \<open>a # rest\<close> is handled from \<open>a\<close>
  alone, whatever \<open>rest\<close> is: if \<open>a\<close> resolves to a sentence, exactly one triple
  is written, made of that sentence, the question and the text of \<open>a\<close>; if it
  does not, the run raises.
\<close>

theorem squad_train_uses_first_answer:
  "(qa_answers qa = [] \<longrightarrow>
      squad_qa_step U ''train'' context_sentences sent_starts qa files = Inr files)
   \<and> (\<forall>a rest. qa_answers qa = a # rest \<longrightarrow>
        squad_qa_step U ''train'' context_sentences sent_starts qa files =
          (case resolve (ans_start a) sent_starts context_sentences of
             Inl err \<Rightarrow> Inl err
           | Inr s \<Rightarrow>
               Inr \<lparr>sentence_file = sentence_file files @ py_join s @ [newline],
                    question_file = question_file files
                      @ py_join (word_tokenize U (clean_text U (qa_question qa))) @ [newline],
                    answer_file = answer_file files
                      @ py_join (word_tokenize U (clean_text U (ans_text a))) @ [newline]\<rparr>))"
proof (intro conjI allI impI)
  assume "qa_answers qa = []"
  then show "squad_qa_step U ''train'' context_sentences sent_starts qa files = Inr files"
    by (simp add: squad_qa_step_def)
next
  fix a rest
  assume "qa_answers qa = a # rest"
  then show "squad_qa_step U ''train'' context_sentences sent_starts qa files =
          (case resolve (ans_start a) sent_starts context_sentences of
             Inl err \<Rightarrow> Inl err
           | Inr s \<Rightarrow>
               Inr \<lparr>sentence_file = sentence_file files @ py_join s @ [newline],
                    question_file = question_file files
                      @ py_join (word_tokenize U (clean_text U (qa_question qa))) @ [newline],
                    answer_file = answer_file files
                      @ py_join (word_tokenize U (clean_text U (ans_text a))) @ [newline]\<rparr>)"
    by (simp add: squad_qa_step_def write_triple_def split: sum.splits)
qed

text \<open>
  The theorem at a question with the answers "Dogs" (offset 12) and "Cats"
  (offset 0), in this order, and at a question with no answer.
\<close>

theorem squad_train_witness:
  "squad_qa_step example_utils ''train''
       [[''Cats'', ''sleep'', ''.''], [''Dogs'', ''run'', ''.'']] [0, 12]
       \<lparr>qa_question = ''Who runs?'',
        qa_answers = [\<lparr>ans_text = ''Dogs'', ans_start = 12\<rparr>, \<lparr>ans_text = ''Cats'', ans_start = 0\<rparr>]\<rparr>
       empty_files
     = Inr \<lparr>sentence_file = ''Dogs run .'' @ [newline],
            question_file = ''Who runs ?'' @ [newline],
            answer_file = ''Dogs'' @ [newline]\<rparr>
   \<and> squad_qa_step example_utils ''train''
       [[''Cats'', ''sleep'', ''.''], [''Dogs'', ''run'', ''.'']] [0, 12]
       \<lparr>qa_question = ''Who runs?'', qa_answers = []\<rparr> empty_files
     = Inr empty_files"
proof -
  let ?cs = "[[''Cats'', ''sleep'', ''.''], [''Dogs'', ''run'', ''.'']]"
  let ?starts = "[0, 12] :: int list"
  let ?a = "\<lparr>ans_text = ''Dogs'', ans_start = 12\<rparr>"
  let ?rest = "[\<lparr>ans_text = ''Cats'', ans_start = 0\<rparr>]"
  let ?qa = "\<lparr>qa_question = ''Who runs?'', qa_answers = ?a # ?rest\<rparr>"
  let ?none = "\<lparr>qa_question = ''Who runs?'', qa_answers = []\<rparr>"
  have r12: "resolve 12 ?starts ?cs = Inr [''Dogs'', ''run'', ''.'']" by (simp add: resolve_def)
  have eq: "qa_answers ?qa = ?a # ?rest" by simp
  have no: "qa_answers ?none = []" by simp
  note t = squad_train_uses_first_answer[of ?qa example_utils ?cs ?starts empty_files]
  note u = squad_train_uses_first_answer[of ?none example_utils ?cs ?starts empty_files]
  from t eq have "squad_qa_step example_utils ''train'' ?cs ?starts ?qa empty_files =
          (case resolve (ans_start ?a) ?starts ?cs of
             Inl err \<Rightarrow> Inl err
           | Inr s \<Rightarrow>
               Inr \<lparr>sentence_file = sentence_file empty_files @ py_join s @ [newline],
                    question_file = question_file empty_files
                      @ py_join (word_tokenize example_utils (clean_text example_utils (qa_question ?qa)))
                      @ [newline],
                    answer_file = answer_file empty_files
                      @ py_join (word_tokenize example_utils (clean_text example_utils (ans_text ?a)))
                      @ [newline]\<rparr>)"
    by blast
  then have a: "squad_qa_step example_utils ''train'' ?cs ?starts ?qa empty_files =
      Inr \<lparr>sentence_file = ''Dogs run .'' @ [newline],
           question_file = ''Who runs ?'' @ [newline],
           answer_file = ''Dogs'' @ [newline]\<rparr>"
    using r12 by (simp add: example_utils_def empty_files_def passage_def indented_passage_def cnn_passage_def)
  from u no have b: "squad_qa_step example_utils ''train'' ?cs ?starts ?none empty_files = Inr empty_files"
    by blast
  from a b show ?thesis by simp
qed

subsection \<open>The NewsQA extractor\<close>

lemma py_find_ge: "- 1 \<le> py_find t sub"
  by (induction t) (auto simp: Let_def)

lemma py_find_first:
  "t = pre @ sub @ post \<Longrightarrow> 0 \<le> py_find t sub \<and> py_find t sub \<le> int (length pre)"
proof (induction t arbitrary: pre)
  case Nil
  then show ?case by simp
next
  case (Cons c cs)
  show ?case
  proof (cases "prefix sub (c # cs)")
    case True
    then show ?thesis by simp
  next
    case False
    have "pre \<noteq> []"
    proof
      assume "pre = []"
      with Cons.prems have "prefix sub (c # cs)" by (simp add: prefix_def)
      with False show False by simp
    qed
    then obtain pre' where pre: "pre = c # pre'" and cs: "cs = pre' @ sub @ post"
      using Cons.prems by (cases pre) auto
    from Cons.IH[OF cs] have "0 \<le> py_find cs sub \<and> py_find cs sub \<le> int (length pre')" .
    with False pre show ?thesis by (simp add: Let_def)
  qed
qed

lemma py_find_occurrence:
  "py_find t sub \<noteq> - 1 \<Longrightarrow>
   t = take (nat (py_find t sub)) t @ sub @ drop (nat (py_find t sub) + length sub) t"
proof (induction t)
  case Nil
  then show ?case by (simp split: if_splits)
next
  case (Cons c cs)
  show ?case
  proof (cases "prefix sub (c # cs)")
    case True
    then obtain post where "c # cs = sub @ post" by (auto simp: prefix_def)
    with True show ?thesis by (metis append_eq_conv_conj append_Nil py_find.simps(2) nat_0 take_0 add_0)
  next
    case False
    with Cons.prems have ne: "py_find cs sub \<noteq> - 1" by (simp add: Let_def split: if_splits)
    have ge: "0 \<le> py_find cs sub" using py_find_ge[of cs sub] ne by simp
    have eq: "py_find (c # cs) sub = py_find cs sub + 1" using False ne by (simp add: Let_def)
    have n: "nat (py_find cs sub + 1) = Suc (nat (py_find cs sub))" using ge by simp
    from Cons.IH[OF ne] show ?thesis unfolding eq n by simp
  qed
qed

lemma cnn_strip_contains:
  assumes "\<exists>pre post. sent = pre @ cnn_marker @ post"
  shows "\<exists>pre. sent = pre @ cnn_marker @ cnn_strip sent
           \<and> (\<forall>pre' post'. sent = pre' @ cnn_marker @ post' \<longrightarrow> length pre \<le> length pre')"
proof -
  let ?i = "py_find sent cnn_marker"
  from assms obtain p0 q0 where occ: "sent = p0 @ cnn_marker @ q0" by blast
  from py_find_first[OF occ] have ge: "0 \<le> ?i" by simp
  then have ne: "?i \<noteq> - 1" by simp
  have strip: "cnn_strip sent = drop (nat ?i + length cnn_marker) sent"
    using ge by (simp add: cnn_strip_def Let_def)
  have split: "sent = take (nat ?i) sent @ cnn_marker @ cnn_strip sent"
    using py_find_occurrence[OF ne] strip by simp
  have len: "length (take (nat ?i) sent) = nat ?i"
  proof -
    from py_find_first[OF occ] have "nat ?i \<le> length p0" by linarith
    also have "\<dots> \<le> length sent" using occ by simp
    finally show ?thesis by simp
  qed
  have least: "\<forall>pre' post'. sent = pre' @ cnn_marker @ post' \<longrightarrow>
                 length (take (nat ?i) sent) \<le> length pre'"
  proof (intro allI impI)
    fix pre' post'
    assume "sent = pre' @ cnn_marker @ post'"
    from py_find_first[OF this] have "nat ?i \<le> length pre'" by linarith
    with len show "length (take (nat ?i) sent) \<le> length pre'" by simp
  qed
  from split least show ?thesis by blast
qed

lemma cnn_strip_absent:
  assumes "\<not> (\<exists>pre post. sent = pre @ cnn_marker @ post)"
  shows "cnn_strip sent = sent"
proof -
  have "py_find sent cnn_marker = - 1"
  proof (rule ccontr)
    assume "py_find sent cnn_marker \<noteq> - 1"
    from py_find_occurrence[OF this] assms show False by blast
  qed
  then show ?thesis by (simp add: cnn_strip_def)
qed

lemma check_found_Inr: "check_found r = Inr found \<Longrightarrow> r = Some found \<and> found \<noteq> []"
  by (cases r rule: check_found.cases) auto

lemma newsqa_step_skip_keeps:
  "newsqa_question_step U context question st = Inr (st', None) \<Longrightarrow> st' = st"
  by (auto simp: newsqa_question_step_def Let_def
           split: if_splits sum.splits option.splits prod.splits)

lemma newsqa_step_emit:
  "newsqa_question_step U context question st = Inr (st', Some (sent, qu, answer)) \<Longrightarrow>
   \<exists>found. found \<noteq> [] \<and> st' = Some found \<and> sent = cnn_strip (joined_sentence found)"
  by (auto simp: newsqa_question_step_def Let_def dest: check_found_Inr
           split: if_splits sum.splits option.splits prod.splits)

lemma scan_none_before:
  "\<forall>start \<in> set sent_starts. answer_start < start \<Longrightarrow>
   scan_sentences answer_start cs idx sent_starts st = Inr st"
  by (cases sent_starts) auto

lemma newsqa_step_unresolved:
  assumes "isQuestionBad question = Some 0"
    and "cons_s (consensus question) = Some answer_start"
    and "answer_start \<noteq> 0"
    and "cons_e (consensus question) = Some answer_end"
    and "py_strip (q_text question) \<noteq> []"
    and "last (py_strip (q_text question)) = CHR ''?''"
    and "convert_idx U context (word_tokenize U context) = Inr spans"
    and "sent_starts_of spans (sent_tokenize U context) = Inr sent_starts"
    and "\<forall>start \<in> set sent_starts. answer_start < start"
  shows "newsqa_question_step U context question st =
           (case check_found st of
              Inl err \<Rightarrow> Inl err
            | Inr found \<Rightarrow>
                Inr (Some found,
                     Some (cnn_strip (joined_sentence found), py_strip (q_text question),
                           py_strip_chars [newline]
                             (py_strip_chars ''.| '' (py_slice context answer_start answer_end)))))"
  using assms by (simp add: newsqa_question_step_def Let_def scan_none_before)

text \<open>
  The working variable along a run: as long as nothing has been written it is
  what it was at the start, and afterwards it holds the tokens of the sentence
  of the triple written last, which are never empty.
\<close>

lemma newsqa_run_invariant:
  "newsqa_run U items st0 = Inr (st, ws) \<Longrightarrow>
   (ws = [] \<longrightarrow> st = st0)
   \<and> (ws \<noteq> [] \<longrightarrow> (\<exists>found. found \<noteq> [] \<and> st = Some found
                         \<and> fst (last ws) = cnn_strip (joined_sentence found)))"
proof (induction items arbitrary: st0 st ws)
  case Nil
  then show ?case by simp
next
  case (Cons item items)
  obtain ctx question where item: "item = (ctx, question)" by (cases item)
  from Cons.prems item obtain st1 w ws1 where
    step: "newsqa_question_step U ctx question st0 = Inr (st1, w)"
    and rest: "newsqa_run U items st1 = Inr (st, ws1)"
    and ws: "ws = (case w of None \<Rightarrow> ws1 | Some t \<Rightarrow> t # ws1)"
    by (auto split: sum.splits prod.splits)
  note IH = Cons.IH[OF rest]
  show ?case
  proof (cases w)
    case None
    with step have "st1 = st0" by (simp add: newsqa_step_skip_keeps)
    with IH ws None show ?thesis by simp
  next
    case (Some t)
    obtain sent qu answer where t: "t = (sent, qu, answer)" by (cases t)
    from newsqa_step_emit[of U ctx question st0 st1 sent qu answer] step Some t
    obtain found where f: "found \<noteq> []" "st1 = Some found" "sent = cnn_strip (joined_sentence found)"
      by auto
    show ?thesis
    proof (cases "ws1 = []")
      case True
      with IH have "st = st1" by simp
      with f ws Some t True show ?thesis by simp
    next
      case False
      with IH ws Some show ?thesis by simp
    qed
  qed
qed

text \<open>
  The nested loops of \<open>newsqa_split_data\<close> compute \<open>newsqa_run\<close> over the
  questions of the training split followed by those of the development split.
\<close>

lemma newsqa_run_append:
  "newsqa_run U (xs @ ys) st =
     (case newsqa_run U xs st of
        Inl err \<Rightarrow> Inl err
      | Inr (st1, w1) \<Rightarrow>
          (case newsqa_run U ys st1 of
             Inl err \<Rightarrow> Inl err
           | Inr (st2, w2) \<Rightarrow> Inr (st2, w1 @ w2)))"
proof (induction xs arbitrary: st)
  case Nil
  then show ?case by (simp split: sum.splits)
next
  case (Cons x xs)
  obtain ctx question where "x = (ctx, question)" by (cases x)
  with Cons.IH show ?case
    by (simp split: sum.splits prod.splits option.splits)
qed

lemma write_all_Cons:
  "write_all files ((sent, qu, ans) # ws) = write_all (write_triple files sent qu ans) ws"
  by (simp add: write_all_def)

lemma write_all_Nil: "write_all files [] = files"
  by (simp add: write_all_def)

lemma newsqa_questions_run:
  "newsqa_questions U context questions (st, files) =
     (case newsqa_run U (map (Pair context) questions) st of
        Inl err \<Rightarrow> Inl err
      | Inr (st', ws) \<Rightarrow> Inr (st', write_all files ws))"
proof (induction questions arbitrary: st files)
  case Nil
  then show ?case by (simp add: write_all_Nil)
next
  case (Cons question questions)
  show ?case
  proof (cases "newsqa_question_step U context question st")
    case (Inl err)
    then show ?thesis by simp
  next
    case (Inr r)
    obtain st1 w where r: "r = (st1, w)" by (cases r)
    show ?thesis
    proof (cases w)
      case None
      with Inr r Cons.IH[of st1 files] show ?thesis
        by (simp split: sum.splits prod.splits)
    next
      case (Some t)
      obtain sent qu ans where t: "t = (sent, qu, ans)" by (cases t)
      with Inr r Some Cons.IH[of st1 "write_triple files sent qu ans"] show ?thesis
        by (simp add: write_all_Cons split: sum.splits prod.splits)
    qed
  qed
qed

lemma newsqa_articles_run:
  "newsqa_articles U sub_dir data (st, files) =
     (case newsqa_run U (newsqa_work sub_dir data) st of
        Inl err \<Rightarrow> Inl err
      | Inr (st', ws) \<Rightarrow> Inr (st', write_all files ws))"
proof (induction data arbitrary: st files)
  case Nil
  then show ?case by (simp add: newsqa_work_def write_all_Nil)
next
  case (Cons article data)
  show ?case
  proof (cases "art_type article = sub_dir")
    case False
    with Cons.IH[of st files] show ?thesis by (simp add: newsqa_work_def)
  next
    case True
    have work: "newsqa_work sub_dir (article # data) =
                  map (Pair (art_text article)) (art_questions article) @ newsqa_work sub_dir data"
      using True by (simp add: newsqa_work_def)
    show ?thesis
    proof (cases "newsqa_run U (map (Pair (art_text article)) (art_questions article)) st")
      case (Inl err)
      with True show ?thesis
        by (simp add: work newsqa_run_append newsqa_questions_run)
    next
      case (Inr r)
      obtain st1 w1 where r: "r = (st1, w1)" by (cases r)
      from Cons.IH[of st1 "write_all files w1"] Inr r True show ?thesis
        by (simp add: work newsqa_run_append newsqa_questions_run write_all_def
                 split: sum.splits prod.splits)
    qed
  qed
qed

lemma newsqa_split_data_run:
  "newsqa_split_data U data_dir data fs =
     (case newsqa_run U (newsqa_work ''train'' data) None of
        Inl err \<Rightarrow> Inl err
      | Inr (st1, w1) \<Rightarrow>
          (case newsqa_run U (newsqa_work ''dev'' data) st1 of
             Inl err \<Rightarrow> Inl err
           | Inr (st2, w2) \<Rightarrow>
               Inr (store_files data_dir ''dev'' (write_all empty_files w2)
                      (store_files data_dir ''train'' (write_all empty_files w1) fs))))"
  by (simp add: newsqa_split_data_def newsqa_articles_run split: sum.splits prod.splits)

lemma newsqa_split_data_raises_iff:
  "(\<exists>err. newsqa_split_data U data_dir data fs = Inl err) \<longleftrightarrow>
   (\<exists>err. newsqa_run U (newsqa_work ''train'' data @ newsqa_work ''dev'' data) None = Inl err)"
  by (simp add: newsqa_split_data_run newsqa_run_append split: sum.splits prod.splits)

lemma newsqa_split_data_raises:
  assumes "newsqa_run U (newsqa_work ''train'' data @ newsqa_work ''dev'' data) None = Inl err"
  shows "newsqa_split_data U data_dir data fs = Inl err"
  using assms
  by (auto simp: newsqa_split_data_run newsqa_run_append split: sum.splits prod.splits)

lemmas example_simps =
  newsqa_question_step_def example_utils_def dogs_question_def early_question_def
  officials_question_def cnn_passage_def passage_def indented_passage_def sent_starts_of_def
  py_strip_def py_strip_chars_def py_whitespace_def py_slice_def py_bound_def
  newline_def cnn_strip_def cnn_marker_def joined_sentence_def Let_def

text \<open>
  Claim C8. Whenever the NewsQA extractor writes a triple for a question, the
  working variable holds the resolved sentence \<open>found\<close>, and with \<open>joined\<close> the
  stripped, non-empty tokens of \<open>found\<close> joined by spaces:
  \<^item> if \<open>joined\<close> contains "( CNN ) -- ", the sentence written is what follows
    the first occurrence of it (\<open>joined = pre @ marker @ sent\<close>, and no
    occurrence starts before \<open>pre\<close> ends);
  \<^item> otherwise the sentence written is \<open>joined\<close> itself;
  \<^item> the line appended to the sentence file is that sentence and a newline;
  \<^item> "( CNN ) -- Officials said today..." is written as "Officials said
    today...".
\<close>

theorem newsqa_sentence_line_drops_cnn_dateline:
  assumes "newsqa_question_step U context question sentence_tokens =
             Inr (sentence_tokens', Some (sent, qu, answer))"
  shows "\<exists>found. sentence_tokens' = Some found
     \<and> ((\<exists>pre post. joined_sentence found = pre @ ''( CNN ) -- '' @ post) \<longrightarrow>
          (\<exists>pre. joined_sentence found = pre @ ''( CNN ) -- '' @ sent
             \<and> (\<forall>pre' post'. joined_sentence found = pre' @ ''( CNN ) -- '' @ post' \<longrightarrow>
                    length pre \<le> length pre')))
     \<and> (\<not> (\<exists>pre post. joined_sentence found = pre @ ''( CNN ) -- '' @ post) \<longrightarrow>
          sent = joined_sentence found)
     \<and> newsqa_questions U context [question] (sentence_tokens, files) =
          Inr (sentence_tokens', write_triple files sent qu answer)
     \<and> sentence_file (write_triple files sent qu answer) = sentence_file files @ sent @ [newline]
     \<and> cnn_strip ''( CNN ) -- Officials said today...'' = ''Officials said today...''"
proof -
  from newsqa_step_emit[OF assms] obtain found where
    found: "sentence_tokens' = Some found" and sent: "sent = cnn_strip (joined_sentence found)"
    by blast
  have a: "(\<exists>pre post. joined_sentence found = pre @ ''( CNN ) -- '' @ post) \<longrightarrow>
          (\<exists>pre. joined_sentence found = pre @ ''( CNN ) -- '' @ sent
             \<and> (\<forall>pre' post'. joined_sentence found = pre' @ ''( CNN ) -- '' @ post' \<longrightarrow>
                    length pre \<le> length pre'))"
    using cnn_strip_contains[of "joined_sentence found"] sent by (simp add: cnn_marker_def)
  have b: "\<not> (\<exists>pre post. joined_sentence found = pre @ ''( CNN ) -- '' @ post) \<longrightarrow>
          sent = joined_sentence found"
    using cnn_strip_absent[of "joined_sentence found"] sent by (simp add: cnn_marker_def)
  have c: "newsqa_questions U context [question] (sentence_tokens, files) =
          Inr (sentence_tokens', write_triple files sent qu answer)"
    using assms by simp
  have d: "sentence_file (write_triple files sent qu answer) = sentence_file files @ sent @ [newline]"
    by (simp add: write_triple_def)
  have e: "cnn_strip ''( CNN ) -- Officials said today...'' = ''Officials said today...''"
    by (simp add: cnn_strip_def cnn_marker_def)
  from found a b c d e show ?thesis by blast
qed

text \<open>
  The theorem at the news passage: the sentence joins to
  "( CNN ) -- Officials said today ." and "Officials said today ." is written.
\<close>

theorem newsqa_cnn_dateline_witness:
  "newsqa_question_step example_utils cnn_passage officials_question None =
     Inr (Some [''('', ''CNN'', '')'', ''--'', ''Officials'', ''said'', ''today'', ''.''],
          Some (''Officials said today .'', ''Who spoke today?'', ''Officials''))
   \<and> joined_sentence [''('', ''CNN'', '')'', ''--'', ''Officials'', ''said'', ''today'', ''.'']
       = ''( CNN ) -- '' @ ''Officials said today .''
   \<and> newsqa_questions example_utils cnn_passage [officials_question] (None, empty_files) =
       Inr (Some [''('', ''CNN'', '')'', ''--'', ''Officials'', ''said'', ''today'', ''.''],
            \<lparr>sentence_file = ''Officials said today .'' @ [newline],
             question_file = ''Who spoke today?'' @ [newline],
             answer_file = ''Officials'' @ [newline]\<rparr>)"
proof -
  let ?toks = "[''('', ''CNN'', '')'', ''--'', ''Officials'', ''said'', ''today'', ''.'']"
  have step: "newsqa_question_step example_utils cnn_passage officials_question None =
     Inr (Some ?toks, Some (''Officials said today .'', ''Who spoke today?'', ''Officials''))"
    by (simp add: example_simps)
  have joined: "joined_sentence ?toks = ''( CNN ) -- '' @ ''Officials said today .''"
    by (simp add: example_simps)
  from newsqa_sentence_line_drops_cnn_dateline[OF step, of empty_files]
  have "newsqa_questions example_utils cnn_passage [officials_question] (None, empty_files) =
          Inr (Some ?toks,
               write_triple empty_files ''Officials said today .'' ''Who spoke today?'' ''Officials'')"
    by blast
  then have run: "newsqa_questions example_utils cnn_passage [officials_question] (None, empty_files) =
       Inr (Some ?toks,
            \<lparr>sentence_file = ''Officials said today .'' @ [newline],
             question_file = ''Who spoke today?'' @ [newline],
             answer_file = ''Officials'' @ [newline]\<rparr>)"
    by (simp add: write_triple_def empty_files_def)
  from step joined run show ?thesis by blast
qed

text \<open>
  Claim C10. Let \<open>earlier\<close> be the questions a run of \<^verbatim>\<open>split_data\<close> has
  processed so far, \<open>written\<close> the triples it wrote for them, and let the next
  question pass the filters while its answer offset is below every sentence
  start of its article. The working variable is not reset, hence:
  \<^item> the question raises if and only if no earlier question of the run has
    resolved a sentence (nothing has been written); the exception then is the
    read of the unbound variable, and it ends the run;
  \<^item> otherwise nothing is raised: the working variable stays as it was, and
    the run writes one more triple, whose sentence is the sentence of the
    triple written last, that of the question resolved before it.
\<close>

theorem newsqa_unresolved_question_reuses_previous_sentence:
  assumes "newsqa_run U earlier None = Inr (sentence_tokens, written)"
    and "isQuestionBad question = Some 0"
    and "cons_s (consensus question) = Some answer_start"
    and "answer_start \<noteq> 0"
    and "cons_e (consensus question) = Some answer_end"
    and "py_strip (q_text question) \<noteq> []"
    and "last (py_strip (q_text question)) = CHR ''?''"
    and "convert_idx U context (word_tokenize U context) = Inr spans"
    and "sent_starts_of spans (sent_tokenize U context) = Inr sent_starts"
    and "\<forall>start \<in> set sent_starts. answer_start < start"
  shows "((\<exists>err. newsqa_question_step U context question sentence_tokens = Inl err)
            \<longleftrightarrow> written = [])
     \<and> (written = [] \<longrightarrow>
          newsqa_question_step U context question sentence_tokens = Inl UnboundLocalError
          \<and> newsqa_run U (earlier @ [(context, question)]) None = Inl UnboundLocalError)
     \<and> (written \<noteq> [] \<longrightarrow>
          newsqa_question_step U context question sentence_tokens =
            Inr (sentence_tokens,
                 Some (fst (last written), py_strip (q_text question),
                       py_strip_chars [newline]
                         (py_strip_chars ''.| '' (py_slice context answer_start answer_end))))
          \<and> newsqa_run U (earlier @ [(context, question)]) None =
            Inr (sentence_tokens,
                 written @ [(fst (last written), py_strip (q_text question),
                             py_strip_chars [newline]
                               (py_strip_chars ''.| ''
                                  (py_slice context answer_start answer_end)))]))"
proof -
  note step = newsqa_step_unresolved[OF assms(2-10), of sentence_tokens]
  note inv = newsqa_run_invariant[OF assms(1)]
  have none: "written = [] \<longrightarrow>
          newsqa_question_step U context question sentence_tokens = Inl UnboundLocalError
          \<and> newsqa_run U (earlier @ [(context, question)]) None = Inl UnboundLocalError"
  proof
    assume "written = []"
    with inv have "sentence_tokens = None" by simp
    with step have s: "newsqa_question_step U context question sentence_tokens = Inl UnboundLocalError"
      by simp
    with assms(1) have "newsqa_run U (earlier @ [(context, question)]) None = Inl UnboundLocalError"
      by (simp add: newsqa_run_append)
    with s show "newsqa_question_step U context question sentence_tokens = Inl UnboundLocalError
          \<and> newsqa_run U (earlier @ [(context, question)]) None = Inl UnboundLocalError"
      by simp
  qed
  have some: "written \<noteq> [] \<longrightarrow>
          newsqa_question_step U context question sentence_tokens =
            Inr (sentence_tokens,
                 Some (fst (last written), py_strip (q_text question),
                       py_strip_chars [newline]
                         (py_strip_chars ''.| '' (py_slice context answer_start answer_end))))
          \<and> newsqa_run U (earlier @ [(context, question)]) None =
            Inr (sentence_tokens,
                 written @ [(fst (last written), py_strip (q_text question),
                             py_strip_chars [newline]
                               (py_strip_chars ''.| ''
                                  (py_slice context answer_start answer_end)))])"
  proof
    assume "written \<noteq> []"
    with inv obtain found where f: "found \<noteq> []" "sentence_tokens = Some found"
      "fst (last written) = cnn_strip (joined_sentence found)" by blast
    from f(1) have "check_found (Some found) = Inr found" by (cases found) simp_all
    with step f have s: "newsqa_question_step U context question sentence_tokens =
            Inr (sentence_tokens,
                 Some (fst (last written), py_strip (q_text question),
                       py_strip_chars [newline]
                         (py_strip_chars ''.| '' (py_slice context answer_start answer_end))))"
      by simp
    with assms(1) have "newsqa_run U (earlier @ [(context, question)]) None =
            Inr (sentence_tokens,
                 written @ [(fst (last written), py_strip (q_text question),
                             py_strip_chars [newline]
                               (py_strip_chars ''.| ''
                                  (py_slice context answer_start answer_end)))])"
      by (simp add: newsqa_run_append)
    with s show "newsqa_question_step U context question sentence_tokens =
            Inr (sentence_tokens,
                 Some (fst (last written), py_strip (q_text question),
                       py_strip_chars [newline]
                         (py_strip_chars ''.| '' (py_slice context answer_start answer_end))))
          \<and> newsqa_run U (earlier @ [(context, question)]) None =
            Inr (sentence_tokens,
                 written @ [(fst (last written), py_strip (q_text question),
                             py_strip_chars [newline]
                               (py_strip_chars ''.| ''
                                  (py_slice context answer_start answer_end)))])"
      by simp
  qed
  from none some show ?thesis by auto
qed

text \<open>
  The theorem after the question on "Dogs" and at the start of a run, for the
  question whose span begins at offset 1 of the indented passage (its sentences
  start at 2 and 14): after "Dogs" it is written with the sentence
  "Dogs run ." and its own answer "Cats"; as the first question it raises.
\<close>

theorem newsqa_reuse_witness:
  "newsqa_run example_utils [(passage, dogs_question)] None =
     Inr (Some [''Dogs'', ''run'', ''.''], [(''Dogs run .'', ''Who runs?'', ''Dogs'')])
   \<and> newsqa_run example_utils [(passage, dogs_question), (indented_passage, early_question)] None =
     Inr (Some [''Dogs'', ''run'', ''.''],
          [(''Dogs run .'', ''Who runs?'', ''Dogs''), (''Dogs run .'', ''Who sleeps?'', ''Cats'')])
   \<and> newsqa_run example_utils [(indented_passage, early_question)] None
     = Inl UnboundLocalError"
proof -
  let ?spans = "[(2, 6), (7, 12), (12, 13), (14, 18), (19, 22), (22, 23)] :: (int \<times> int) list"
  have run1: "newsqa_run example_utils [(passage, dogs_question)] None =
     Inr (Some [''Dogs'', ''run'', ''.''], [(''Dogs run .'', ''Who runs?'', ''Dogs'')])"
    by (simp add: example_simps)
  have run0: "newsqa_run example_utils [] None = Inr (None, [])" by simp
  have h2: "isQuestionBad early_question = Some 0" by (simp add: early_question_def)
  have h3: "cons_s (consensus early_question) = Some 1" by (simp add: early_question_def)
  have h4: "(1::int) \<noteq> 0" by simp
  have h5: "cons_e (consensus early_question) = Some 6" by (simp add: early_question_def)
  have h6: "py_strip (q_text early_question) \<noteq> []" by (simp add: example_simps)
  have h7: "last (py_strip (q_text early_question)) = CHR ''?''" by (simp add: example_simps)
  have h8: "convert_idx example_utils indented_passage
              (word_tokenize example_utils indented_passage) = Inr ?spans"
    by (simp add: example_simps)
  have h9: "sent_starts_of ?spans (sent_tokenize example_utils indented_passage) = Inr [2, 14]"
    by (simp add: example_simps)
  have h10: "\<forall>start \<in> set [2, 14]. (1::int) < start" by simp
  note after = newsqa_unresolved_question_reuses_previous_sentence
                 [OF run1 h2 h3 h4 h5 h6 h7 h8 h9 h10]
  note first = newsqa_unresolved_question_reuses_previous_sentence
                 [OF run0 h2 h3 h4 h5 h6 h7 h8 h9 h10]
  from after have "newsqa_run example_utils
        ([(passage, dogs_question)] @ [(indented_passage, early_question)]) None =
     Inr (Some [''Dogs'', ''run'', ''.''],
          [(''Dogs run .'', ''Who runs?'', ''Dogs'')]
          @ [(fst (last [(''Dogs run .'', ''Who runs?'', ''Dogs'')]),
              py_strip (q_text early_question),
              py_strip_chars [newline]
                (py_strip_chars ''.| '' (py_slice indented_passage 1 6)))])"
    by blast
  then have a: "newsqa_run example_utils
        [(passage, dogs_question), (indented_passage, early_question)] None =
     Inr (Some [''Dogs'', ''run'', ''.''],
          [(''Dogs run .'', ''Who runs?'', ''Dogs''), (''Dogs run .'', ''Who sleeps?'', ''Cats'')])"
    by (simp add: early_question_def indented_passage_def py_strip_def py_strip_chars_def
          py_whitespace_def py_slice_def py_bound_def newline_def)
  from first have "newsqa_run example_utils ([] @ [(indented_passage, early_question)]) None
     = Inl UnboundLocalError"
    by blast
  then have b: "newsqa_run example_utils [(indented_passage, early_question)] None
     = Inl UnboundLocalError"
    by (simp only: append_Nil)
  from run1 a b show ?thesis by blast
qed

text \<open>
  Claim C4, as amended. A NewsQA question that passes the filters and whose
  answer offset is below every sentence start is not skipped. Let the
  questions of the data, in the order \<^verbatim>\<open>split_data\<close> processes them, be
  \<open>earlier\<close>, then this question, then \<open>later\<close>: when no question of \<open>earlier\<close>
  has resolved a sentence (the run has written nothing so far),
  \<^verbatim>\<open>split_data\<close> raises at this question and the run ends there, whatever
  \<open>later\<close> holds.
\<close>

theorem newsqa_resolution_failure_aborts:
  assumes "newsqa_work ''train'' data @ newsqa_work ''dev'' data
             = earlier @ (context, question) # later"
    and "newsqa_run U earlier None = Inr (sentence_tokens, [])"
    and "isQuestionBad question = Some 0"
    and "cons_s (consensus question) = Some answer_start"
    and "answer_start \<noteq> 0"
    and "cons_e (consensus question) = Some answer_end"
    and "py_strip (q_text question) \<noteq> []"
    and "last (py_strip (q_text question)) = CHR ''?''"
    and "convert_idx U context (word_tokenize U context) = Inr spans"
    and "sent_starts_of spans (sent_tokenize U context) = Inr sent_starts"
    and "\<forall>start \<in> set sent_starts. answer_start < start"
  shows "newsqa_split_data U data_dir data fs = Inl UnboundLocalError"
proof -
  from newsqa_run_invariant[OF assms(2)] have "sentence_tokens = None" by simp
  with newsqa_step_unresolved[OF assms(3-11), of sentence_tokens]
  have "newsqa_question_step U context question sentence_tokens = Inl UnboundLocalError"
    by simp
  with assms(2) have "newsqa_run U (earlier @ (context, question) # later) None
                        = Inl UnboundLocalError"
    by (simp add: newsqa_run_append)
  with assms(1) show ?thesis by (simp add: newsqa_split_data_raises)
qed

text \<open>
  The theorem at three articles with one question each: one flagged bad
  (skipped), the one with the early span, and, in the development split, the
  question on "Dogs", which is never reached.
\<close>

theorem newsqa_abort_witness:
  "newsqa_split_data example_utils ''newsqa''
     [\<lparr>art_type = ''train'', art_text = passage,
       art_questions = [\<lparr>isQuestionBad = Some 1,
                         consensus = \<lparr>cons_s = Some 12, cons_e = Some 16\<rparr>,
                         q_text = ''Who runs?''\<rparr>]\<rparr>,
      \<lparr>art_type = ''train'', art_text = indented_passage, art_questions = [early_question]\<rparr>,
      \<lparr>art_type = ''dev'', art_text = passage, art_questions = [dogs_question]\<rparr>]
     empty_fs
   = Inl UnboundLocalError"
proof -
  let ?bad = "\<lparr>isQuestionBad = Some 1, consensus = \<lparr>cons_s = Some 12, cons_e = Some 16\<rparr>,
                 q_text = ''Who runs?''\<rparr>"
  let ?data = "[\<lparr>art_type = ''train'', art_text = passage, art_questions = [?bad]\<rparr>,
      \<lparr>art_type = ''train'', art_text = indented_passage, art_questions = [early_question]\<rparr>,
      \<lparr>art_type = ''dev'', art_text = passage, art_questions = [dogs_question]\<rparr>]"
  let ?spans = "[(2, 6), (7, 12), (12, 13), (14, 18), (19, 22), (22, 23)] :: (int \<times> int) list"
  have work: "newsqa_work ''train'' ?data @ newsqa_work ''dev'' ?data
                = [(passage, ?bad)] @ (indented_passage, early_question) # [(passage, dogs_question)]"
    by (simp add: newsqa_work_def)
  have run: "newsqa_run example_utils [(passage, ?bad)] None = Inr (None, [])"
    by (simp add: newsqa_question_step_def)
  have h2: "isQuestionBad early_question = Some 0" by (simp add: early_question_def)
  have h3: "cons_s (consensus early_question) = Some 1" by (simp add: early_question_def)
  have h4: "(1::int) \<noteq> 0" by simp
  have h5: "cons_e (consensus early_question) = Some 6" by (simp add: early_question_def)
  have h6: "py_strip (q_text early_question) \<noteq> []" by (simp add: example_simps)
  have h7: "last (py_strip (q_text early_question)) = CHR ''?''" by (simp add: example_simps)
  have h8: "convert_idx example_utils indented_passage
              (word_tokenize example_utils indented_passage) = Inr ?spans"
    by (simp add: example_simps)
  have h9: "sent_starts_of ?spans (sent_tokenize example_utils indented_passage) = Inr [2, 14]"
    by (simp add: example_simps)
  have h10: "\<forall>start \<in> set [2, 14]. (1::int) < start" by simp
  show ?thesis
    by (rule newsqa_resolution_failure_aborts[OF work run h2 h3 h4 h5 h6 h7 h8 h9 h10])
qed

text \<open>
  Claim C4 as stated fails: on an article of the training split with the
  early-span question followed by the question on "Dogs", \<^verbatim>\<open>split_data\<close> does
  not drop the first question and go on; the run is aborted by an exception.
\<close>

theorem newsqa_resolution_failure_not_skipped:
  "newsqa_split_data example_utils ''newsqa''
     [\<lparr>art_type = ''train'', art_text = indented_passage,
       art_questions = [early_question, dogs_question]\<rparr>]
     empty_fs = Inl UnboundLocalError"
  by (simp add: newsqa_split_data_def example_simps)

text \<open>
  Claim C6 does not hold of the code. A question that is not flagged bad, has
  the consensus span 0 to 4 and ends with a question mark meets none of the
  three skip conditions, yet it is skipped: line 156 tests the truth value of
  \<^verbatim>\<open>question["consensus"].get("s")\<close>, and the offset 0 is false. No function of
  \<^verbatim>\<open>utils\<close> is called, so this holds for every tokenizer and article.
\<close>

theorem newsqa_skips_answer_at_offset_zero:
  "newsqa_question_step U context
     \<lparr>isQuestionBad = Some 0, consensus = \<lparr>cons_s = Some 0, cons_e = Some 4\<rparr>,
      q_text = ''Who sleeps?''\<rparr> sentence_tokens
   = Inr (sentence_tokens, None)"
  by (simp add: newsqa_question_step_def)

text \<open>
  The same question in an article of the training split leaves the three files
  empty, while the span 1 to 4 on the same article is written.
\<close>

lemma newsqa_offset_zero_writes_nothing:
  "newsqa_articles example_utils ''train''
     [\<lparr>art_type = ''train'', art_text = passage,
       art_questions = [\<lparr>isQuestionBad = Some 0, consensus = \<lparr>cons_s = Some 0, cons_e = Some 4\<rparr>,
                         q_text = ''Who sleeps?''\<rparr>]\<rparr>]
     (None, empty_files) = Inr (None, empty_files)"
  by (simp add: newsqa_question_step_def)

lemma newsqa_offset_one_is_written:
  "newsqa_articles example_utils ''train''
     [\<lparr>art_type = ''train'', art_text = passage,
       art_questions = [\<lparr>isQuestionBad = Some 0, consensus = \<lparr>cons_s = Some 1, cons_e = Some 4\<rparr>,
                         q_text = ''Who sleeps?''\<rparr>]\<rparr>]
     (None, empty_files)
   = Inr (Some [''Cats'', ''sleep'', ''.''],
          \<lparr>sentence_file = ''Cats sleep .'' @ [newline],
           question_file = ''Who sleeps?'' @ [newline],
           answer_file = ''ats'' @ [newline]\<rparr>)"
  by (simp add: example_simps write_triple_def empty_files_def)

text \<open>
  A question text of whitespace only does not end with a question mark either,
  and is not skipped silently: \<^verbatim>\<open>q[-1]\<close> raises IndexError on the empty string.
\<close>

lemma newsqa_empty_question_raises:
  "newsqa_question_step example_utils passage
     \<lparr>isQuestionBad = Some 0, consensus = \<lparr>cons_s = Some 12, cons_e = Some 16\<rparr>,
      q_text = ''  ''\<rparr> sentence_tokens
   = Inl IndexError"
  by (simp add: example_simps)

text \<open>
  What the code does: a question is skipped without writing or raising exactly
  when its flag is not 0 (or absent), or the key \<^verbatim>\<open>s\<close> is absent or 0, or the
  sentence starts were computed without an exception and the trimmed question
  text is non-empty and does not end with a question mark.
\<close>

lemma newsqa_step_skips_iff:
  "newsqa_question_step U context question sentence_tokens = Inr (sentence_tokens', None) \<longleftrightarrow>
     sentence_tokens' = sentence_tokens
     \<and> (isQuestionBad question \<noteq> Some 0
        \<or> cons_s (consensus question) = None
        \<or> cons_s (consensus question) = Some 0
        \<or> (\<exists>spans sent_starts.
              convert_idx U context (word_tokenize U context) = Inr spans
              \<and> sent_starts_of spans (sent_tokenize U context) = Inr sent_starts
              \<and> py_strip (q_text question) \<noteq> []
              \<and> last (py_strip (q_text question)) \<noteq> CHR ''?''))"
  by (cases "cons_s (consensus question)")
     (auto simp: newsqa_question_step_def Let_def
           split: if_splits sum.splits option.splits prod.splits)

subsection \<open>The merger\<close>

text \<open>
  Reading and writing lines: the lines of a file concatenate to its content,
  and a list of well-formed lines is read back unchanged.
\<close>

lemma split_lines_concat_id: "concat (split_lines c) = c"
  by (induction c rule: split_lines.induct) (auto split: list.splits)

lemma split_lines_Nil_iff: "split_lines c = [] \<longleftrightarrow> c = []"
  by (cases c) (auto split: list.splits)

lemma split_lines_proper_prefix:
  "proper_line l \<Longrightarrow> split_lines (l @ rest) = l # split_lines rest"
proof (induction l)
  case Nil
  then show ?case by (simp add: proper_line_def)
next
  case (Cons c l)
  show ?case
  proof (cases "l = []")
    case True
    with Cons.prems show ?thesis by (simp add: proper_line_def)
  next
    case False
    with Cons.prems have "c \<noteq> newline" and "proper_line l"
      by (auto simp: proper_line_def)
    with Cons.IH show ?thesis by simp
  qed
qed

lemma split_lines_concat:
  "\<forall>l \<in> set ls. proper_line l \<Longrightarrow> split_lines (concat ls) = ls"
  by (induction ls) (simp_all add: split_lines_proper_prefix)

lemma split_lines_proper:
  "c = [] \<or> last c = newline \<Longrightarrow> \<forall>l \<in> set (split_lines c). proper_line l"
proof (induction c rule: split_lines.induct)
  case 1
  then show ?case by simp
next
  case (2 c cs)
  show ?case
  proof (cases "c = newline")
    case True
    have "cs = [] \<or> last cs = newline" using "2.prems" by (cases cs) auto
    with "2.IH"(1)[OF True] True show ?thesis by (simp add: proper_line_def)
  next
    case False
    with "2.prems" have cs: "cs \<noteq> []" "last cs = newline" by (auto split: if_splits)
    then obtain l ls where sl: "split_lines cs = l # ls"
      using split_lines_Nil_iff[of cs] by (cases "split_lines cs") auto
    from "2.IH"(2)[OF False] cs sl have "proper_line l" "\<forall>x \<in> set ls. proper_line x" by auto
    with False sl show ?thesis by (auto simp: proper_line_def)
  qed
qed

lemma universal_newlines_no_cr: "CHR 0x0D \<notin> set (universal_newlines c)"
  by (induction c rule: universal_newlines.induct) (auto simp: newline_def)

lemma universal_newlines_id: "CHR 0x0D \<notin> set c \<Longrightarrow> universal_newlines c = c"
  by (induction c rule: universal_newlines.induct) auto

lemma map_snd_keyed_lines: "map snd (keyed_lines rnd drawn ls) = ls"
  by (induction ls arbitrary: drawn) simp_all

lemma length_keyed_lines: "length (keyed_lines rnd drawn ls) = length ls"
  by (induction ls arbitrary: drawn) simp_all

lemma mset_sorted_keyed_lines: "mset (map snd (sort (keyed_lines rnd drawn ls))) = mset ls"
proof -
  have "mset (map snd (sort (keyed_lines rnd drawn ls))) = image_mset snd (mset (sort (keyed_lines rnd drawn ls)))"
    by simp
  also have "\<dots> = image_mset snd (mset (keyed_lines rnd drawn ls))" by simp
  also have "\<dots> = mset (map snd (keyed_lines rnd drawn ls))" by simp
  finally show ?thesis by (simp add: map_snd_keyed_lines)
qed

text \<open>
  The first half of \<^verbatim>\<open>concatenate_data\<close>: when every input exists, the output
  holds the inputs one after the other.
\<close>

lemma copy_files_result:
  "out_filename \<notin> set filenames \<Longrightarrow> \<forall>f \<in> set filenames. fs f \<noteq> None \<Longrightarrow>
   fs out_filename = Some written \<Longrightarrow>
   copy_files fs out_filename filenames =
     Inr (fs (out_filename \<mapsto>
            written @ concat (map (\<lambda>f. concat (read_lines (the (fs f)))) filenames)))"
proof (induction filenames arbitrary: fs written)
  case Nil
  then show ?case by (simp add: fun_upd_idem)
next
  case (Cons f filenames)
  from Cons.prems obtain content where c: "fs f = Some content" by auto
  define fs1 where "fs1 = fs (out_filename \<mapsto> written @ concat (read_lines content))"
  have 1: "out_filename \<notin> set filenames" using Cons.prems by simp
  have 2: "\<forall>g \<in> set filenames. fs1 g \<noteq> None" using Cons.prems by (simp add: fs1_def)
  have 3: "fs1 out_filename = Some (written @ concat (read_lines content))"
    by (simp add: fs1_def)
  have same: "\<And>g. g \<in> set filenames \<Longrightarrow> fs1 g = fs g" using 1 by (auto simp: fs1_def)
  have m: "map (\<lambda>g. concat (read_lines (the (fs1 g)))) filenames
          = map (\<lambda>g. concat (read_lines (the (fs g)))) filenames"
    using same by (intro map_cong) simp_all
  have "copy_files fs out_filename (f # filenames) = copy_files fs1 out_filename filenames"
    using c Cons.prems(3) by (simp add: fs1_def)
  also have "\<dots> = Inr (fs1 (out_filename \<mapsto>
            (written @ concat (read_lines content))
            @ concat (map (\<lambda>g. concat (read_lines (the (fs1 g)))) filenames)))"
    by (rule Cons.IH[OF 1 2 3])
  also have "fs1 (out_filename \<mapsto>
            (written @ concat (read_lines content))
            @ concat (map (\<lambda>g. concat (read_lines (the (fs1 g)))) filenames))
        = fs (out_filename \<mapsto>
            written @ concat (map (\<lambda>g. concat (read_lines (the (fs g)))) (f # filenames)))"
    unfolding m by (simp add: fs1_def c)
  finally show ?case .
qed

lemma copy_files_missing:
  "f \<in> set filenames \<Longrightarrow> fs f = None \<Longrightarrow> out_filename \<notin> set filenames \<Longrightarrow>
   copy_files fs out_filename filenames = Inl FileNotFoundError"
proof (induction filenames arbitrary: fs)
  case Nil
  then show ?case by simp
next
  case (Cons g filenames)
  show ?case
  proof (cases "fs g")
    case None
    then show ?thesis by simp
  next
    case (Some content)
    with Cons.prems have "f \<in> set filenames" by auto
    moreover have "(fs (out_filename \<mapsto> (case fs out_filename of None \<Rightarrow> [] | Some w \<Rightarrow> w)
                     @ concat (read_lines content))) f = None"
      using Cons.prems by auto
    moreover have "out_filename \<notin> set filenames" using Cons.prems by simp
    ultimately show ?thesis using Cons.IH Some by simp
  qed
qed

lemma concatenate_data_result:
  assumes "out_filename \<notin> set filenames"
    and "\<forall>f \<in> set filenames. fs f \<noteq> None"
  shows "concatenate_data rnd filenames out_filename (fs, drawn) =
     (let ls = read_lines (concat (map (\<lambda>f. concat (read_lines (the (fs f)))) filenames))
      in Inr (fs (out_filename \<mapsto> concat (map snd (sort (keyed_lines rnd drawn ls)))),
              drawn + length ls))"
proof -
  define fs0 where "fs0 = fs (out_filename \<mapsto> [])"
  define merged where
    "merged = concat (map (\<lambda>g. concat (read_lines (the (fs g)))) filenames)"
  have ex: "\<forall>f \<in> set filenames. fs0 f \<noteq> None" using assms by (auto simp: fs0_def)
  have same: "\<And>g. g \<in> set filenames \<Longrightarrow> fs0 g = fs g" using assms(1) by (auto simp: fs0_def)
  have m: "map (\<lambda>g. concat (read_lines (the (fs0 g)))) filenames
          = map (\<lambda>g. concat (read_lines (the (fs g)))) filenames"
    using same by (intro map_cong) simp_all
  have out: "fs0 out_filename = Some []" by (simp add: fs0_def)
  have "copy_files fs0 out_filename filenames =
          Inr (fs0 (out_filename \<mapsto>
                 [] @ concat (map (\<lambda>g. concat (read_lines (the (fs0 g)))) filenames)))"
    by (rule copy_files_result[OF assms(1) ex out])
  then have copy: "copy_files fs0 out_filename filenames = Inr (fs (out_filename \<mapsto> merged))"
    unfolding m by (simp add: fs0_def merged_def)
  show ?thesis
    unfolding concatenate_data_def fst_conv snd_conv fs0_def[symmetric] copy merged_def[symmetric]
    by (simp add: Let_def length_keyed_lines)
qed

lemma universal_newlines_last:
  "c \<noteq> [] \<Longrightarrow> last c = newline \<Longrightarrow>
   universal_newlines c \<noteq> [] \<and> last (universal_newlines c) = newline"
  by (induction c rule: universal_newlines.induct) (auto simp: newline_def split: if_splits)

lemma read_lines_no_cr: "l \<in> set (read_lines c) \<Longrightarrow> CHR 0x0D \<notin> set l"
proof
  assume l: "l \<in> set (read_lines c)" and cr: "CHR 0x0D \<in> set l"
  then have "CHR 0x0D \<in> set (concat (read_lines c))" by auto
  then have "CHR 0x0D \<in> set (universal_newlines c)"
    by (simp only: read_lines_def split_lines_concat_id)
  with universal_newlines_no_cr show False by blast
qed

lemma read_lines_proper:
  assumes "c = [] \<or> last c = newline"
  shows "\<forall>l \<in> set (read_lines c). proper_line l"
proof -
  have "universal_newlines c = [] \<or> last (universal_newlines c) = newline"
    using assms universal_newlines_last[of c] by (cases "c = []") auto
  then show ?thesis unfolding read_lines_def by (rule split_lines_proper)
qed

lemma read_lines_concat_proper:
  assumes "\<forall>l \<in> set ls. proper_line l \<and> CHR 0x0D \<notin> set l"
  shows "read_lines (concat ls) = ls"
proof -
  have "CHR 0x0D \<notin> set (concat ls)" using assms by auto
  then show ?thesis
    using assms by (simp add: read_lines_def universal_newlines_id split_lines_concat)
qed

text \<open>
  What one call of \<^verbatim>\<open>concatenate_data\<close> guarantees for its own output file: if
  every input file exists and is empty or ends with a newline, the call
  succeeds, changes no other file, and the lines of the output are a
  permutation of the lines of the inputs; it draws one random number per line.
\<close>

theorem concatenate_data_permutes_lines:
  assumes "out_filename \<notin> set filenames"
    and "\<forall>f \<in> set filenames. \<exists>c. fs f = Some c \<and> (c = [] \<or> last c = newline)"
  shows "\<exists>merged.
     concatenate_data rnd filenames out_filename (fs, drawn) =
       Inr (fs (out_filename \<mapsto> merged), drawn + length (read_lines merged))
     \<and> mset (read_lines merged) = mset (concat (map (\<lambda>f. read_lines (the (fs f))) filenames))"
proof -
  define L where "L = concat (map (\<lambda>f. read_lines (the (fs f))) filenames)"
  define KL where "KL = sort (keyed_lines rnd drawn L)"
  have ex: "\<forall>f \<in> set filenames. fs f \<noteq> None" using assms(2) by auto
  have good: "\<forall>l \<in> set L. proper_line l \<and> CHR 0x0D \<notin> set l"
  proof
    fix l assume "l \<in> set L"
    then obtain f where f: "f \<in> set filenames" and l: "l \<in> set (read_lines (the (fs f)))"
      by (auto simp: L_def)
    from assms(2) f obtain c where c: "fs f = Some c" "c = [] \<or> last c = newline" by blast
    with l read_lines_proper[of c] read_lines_no_cr[of l c]
    show "proper_line l \<and> CHR 0x0D \<notin> set l" by simp
  qed
  have flat: "concat (map (\<lambda>f. concat (read_lines (the (fs f)))) filenames) = concat L"
    unfolding L_def by (induction filenames) simp_all
  have rl: "read_lines (concat L) = L" using good by (rule read_lines_concat_proper)
  have ms: "mset (map snd KL) = mset L" unfolding KL_def by (rule mset_sorted_keyed_lines)
  then have "set (map snd KL) = set L" by (metis set_mset_mset)
  with good have good': "\<forall>l \<in> set (map snd KL). proper_line l \<and> CHR 0x0D \<notin> set l" by simp
  have reread: "read_lines (concat (map snd KL)) = map snd KL"
    using good' by (rule read_lines_concat_proper)
  have "concatenate_data rnd filenames out_filename (fs, drawn) =
          Inr (fs (out_filename \<mapsto> concat (map snd KL)), drawn + length L)"
    using concatenate_data_result[OF assms(1) ex, of rnd drawn]
    by (simp add: flat rl KL_def Let_def)
  moreover have "length (read_lines (concat (map snd KL))) = length L"
    using reread ms by (metis size_mset)
  moreover have "mset (read_lines (concat (map snd KL))) = mset L" using reread ms by simp
  ultimately show ?thesis unfolding L_def[symmetric] by (intro exI[of _ "concat (map snd KL)"]) simp
qed


text \<open>
  A merge writes its output path only, and the merge stage only the sentence
  and question files of the two splits.
\<close>

lemma copy_files_frame:
  "copy_files fs out_filename filenames = Inr fs' \<Longrightarrow> p \<noteq> out_filename \<Longrightarrow> fs' p = fs p"
proof (induction filenames arbitrary: fs)
  case Nil
  then show ?case by simp
next
  case (Cons f filenames)
  from Cons.prems(1) obtain content where c: "fs f = Some content"
    by (cases "fs f") simp_all
  define fs1 where
    "fs1 = fs (out_filename \<mapsto> (case fs out_filename of None \<Rightarrow> [] | Some w \<Rightarrow> w)
                                 @ concat (read_lines content))"
  from Cons.prems(1) c have "copy_files fs1 out_filename filenames = Inr fs'"
    by (simp add: fs1_def)
  from Cons.IH[OF this Cons.prems(2)] Cons.prems(2) show ?case by (simp add: fs1_def)
qed

lemma concatenate_data_frame:
  assumes "concatenate_data rnd filenames out_filename (fs, drawn) = Inr (fs', drawn')"
    and "p \<noteq> out_filename"
  shows "fs' p = fs p"
proof -
  from assms(1) obtain fs1 content where
    copy: "copy_files (fs (out_filename \<mapsto> [])) out_filename filenames = Inr fs1"
    and fs': "fs' = fs1 (out_filename \<mapsto>
                content)"
    by (auto simp: concatenate_data_def Let_def split: sum.splits option.splits)
  from copy_files_frame[OF copy assms(2)] assms(2) fs' show ?thesis by simp
qed

lemma merge_stage_frame:
  assumes "merge_stage rnd squad_data_dir newsqa_data_dir out_dir (fs, drawn) = Inr (fs', drawn')"
    and "p \<noteq> path_join out_dir [''train'', ''train.sentence'']"
    and "p \<noteq> path_join out_dir [''train'', ''train.question'']"
    and "p \<noteq> path_join out_dir [''dev'', ''dev.sentence'']"
    and "p \<noteq> path_join out_dir [''dev'', ''dev.question'']"
  shows "fs' p = fs p"
proof -
  from assms(1) obtain fs1 d1 fs2 d2 fs3 d3 where
    m1: "merge_one rnd squad_data_dir newsqa_data_dir out_dir ''train'' ''train.sentence'' (fs, drawn)
           = Inr (fs1, d1)"
    and m2: "merge_one rnd squad_data_dir newsqa_data_dir out_dir ''train'' ''train.question'' (fs1, d1)
           = Inr (fs2, d2)"
    and m3: "merge_one rnd squad_data_dir newsqa_data_dir out_dir ''dev'' ''dev.sentence'' (fs2, d2)
           = Inr (fs3, d3)"
    and m4: "merge_one rnd squad_data_dir newsqa_data_dir out_dir ''dev'' ''dev.question'' (fs3, d3)
           = Inr (fs', drawn')"
    by (auto simp: merge_stage_def split: sum.splits)
  have "fs1 p = fs p"
    using m1 assms(2) unfolding merge_one_def by (rule concatenate_data_frame)
  moreover have "fs2 p = fs1 p"
    using m2 assms(3) unfolding merge_one_def by (rule concatenate_data_frame)
  moreover have "fs3 p = fs2 p"
    using m3 assms(4) unfolding merge_one_def by (rule concatenate_data_frame)
  moreover have "fs' p = fs3 p"
    using m4 assms(5) unfolding merge_one_def by (rule concatenate_data_frame)
  ultimately show ?thesis by simp
qed

lemmas pipeline_simps =
  run_main_def newsqa_split_data_def squad_split_data_def squad_paragraph_step_def
  squad_qa_step_def resolve_def store_files_def split_first_def write_triple_def empty_files_def
  merge_stage_def merge_one_def concatenate_data_def path_join_def path_join2_def
  read_lines_def empty_fs_def example_rnd_def example_newsqa_def example_squad_train_def
  newsqa_question_step_def example_utils_def dogs_question_def early_question_def
  officials_question_def cnn_passage_def passage_def indented_passage_def sent_starts_of_def
  py_strip_def py_strip_chars_def py_whitespace_def py_slice_def py_bound_def
  newline_def cnn_strip_def cnn_marker_def joined_sentence_def Let_def

text \<open>
  Claim C1 does not hold of the code. \<^verbatim>\<open>concatenate_data\<close> is called once per
  file and draws fresh random keys in every call, so each merged file gets a
  permutation of its own. Take one training example per corpus: the question
  "Who sleeps?" with the answer "Cats" in SQuAD, the question "Who runs?" with
  the answer "Dogs" in NewsQA, and let the generator return 0.1, 0.9, 0.8, 0.2.
  Each extractor writes its sentence and its question on line 0 of its files.
  The sentence merge draws 0.1 and 0.9 and keeps the order SQuAD, NewsQA; the
  question merge draws 0.8 and 0.2 and reverses it. Line 0 of the merged files
  pairs the sentence "Cats sleep ." with the question "Who runs?", which stood
  at no common index before.
\<close>

theorem merge_shuffles_files_independently:
  "(case run_main example_utils example_rnd ''squad'' ''newsqa'' ''out''
           example_newsqa example_squad_train [] empty_fs of
      Inl err \<Rightarrow> None
    | Inr (fs', drawn) \<Rightarrow>
        Some ((fs' ''squad/train/train.sentence'', fs' ''squad/train/train.question''),
              (fs' ''newsqa/train/train.sentence'', fs' ''newsqa/train/train.question''),
              (fs' ''out/train/train.sentence'', fs' ''out/train/train.question'')))
   = Some ((Some (''Cats sleep .'' @ [newline]), Some (''Who sleeps ?'' @ [newline])),
           (Some (''Dogs run .'' @ [newline]), Some (''Who runs?'' @ [newline])),
           (Some (''Cats sleep .'' @ [newline] @ ''Dogs run .'' @ [newline]),
            Some (''Who runs?'' @ [newline] @ ''Who sleeps ?'' @ [newline])))"
  by (simp add: pipeline_simps)

text \<open>
  Claim C9 does not hold of the code. \<^verbatim>\<open>__main__\<close> merges the sentence and the
  question files of each split and never the answer files: in the same run both
  extractors have written their answer files, and after the merge stage
  neither "out/train/train.answer" nor "out/dev/dev.answer" exists.
\<close>

theorem merge_leaves_answers_unmerged:
  "(case run_main example_utils example_rnd ''squad'' ''newsqa'' ''out''
           example_newsqa example_squad_train [] empty_fs of
      Inl err \<Rightarrow> None
    | Inr (fs', drawn) \<Rightarrow>
        Some (fs' ''squad/train/train.answer'', fs' ''newsqa/train/train.answer'',
              fs' ''out/train/train.answer'', fs' ''out/dev/dev.answer''))
   = Some (Some (''Cats'' @ [newline]), Some (''Dogs'' @ [newline]), None, None)"
  by (simp add: pipeline_simps)

end
